theory Spec2Isabelle
  imports Main
begin

section \<open>Values, thrown values and events\<close>

text \<open>
  The engine of \<^verbatim>\<open>src/index.ts\<close> is embedded over three type parameters:
  \<open>'a\<close> the argument tuple of the agent, \<open>'v\<close> the JavaScript values that flow through
  the Host (agent results, states, dependency elements, thrown values; HOL equality
  stands for \<^verbatim>\<open>Object.is\<close> and \<^verbatim>\<open>===\<close>), and \<open>'w\<close> everything outside the Host that
  user closures may read and write.

  A thrown value is a user value or one of two failures of the runtime itself:
  a primitive that finds a cell of another kind at the cursor, and the spread of
  \<^verbatim>\<open>this.#args!\<close> while no arguments were ever stored.
\<close>

datatype 'v error = Thrown 'v | HookOrder | NoArgs

datatype 'v event =
    ValueEvent 'v bool bool
  | ResetEvent
  | ErrorEvent "'v error" bool

text \<open>
  \<^verbatim>\<open>HostListener\<close>: the listener is handed the event and may throw. What it does
  may depend on the events it has been handed before; it does not call back into
  the Host.
\<close>

type_synonym 'v listener = "'v event list \<Rightarrow> 'v event \<Rightarrow> 'v error option"

section \<open>User closures\<close>

text \<open>
  \<^verbatim>\<open>SetState<TState> = (state: TState | CreateState<TState>) => void\<close>: the argument
  of a setter is a plain value or an updater. The two are told apart by
  \<^verbatim>\<open>isFunction\<close> (\<^verbatim>\<open>is-function.ts\<close>, not among the sources; by the specification it is
  true exactly of the values that can be invoked); here the constructor tells them
  apart, and likewise for the initial state below. An updater is a total function.
\<close>

datatype 'v state_change = NewState 'v | CreateState "'v \<Rightarrow> 'v"

text \<open>
  A setter is identified with the state cell object its closure captures; a call
  of a setter made by a closure is recorded as the identity of the cell and the
  argument.
\<close>

type_synonym 'v set_call = "nat \<times> 'v state_change"

text \<open>
  \<^verbatim>\<open>DisposeEffect = () => void\<close> and \<^verbatim>\<open>Effect = () => DisposeEffect | void\<close>: a closure
  transforms the outside world, calls setters, and then throws or returns. These
  are the only ways in which a user closure acts on its Host: it does not call
  \<^verbatim>\<open>render\<close> or \<^verbatim>\<open>reset\<close> itself.
\<close>

datatype ('v, 'w) dispose_fn =
  Dispose "'w \<Rightarrow> 'v error option \<times> 'v set_call list \<times> 'w"

datatype ('v, 'w) effect_fn =
  Effect "'w \<Rightarrow> ('v error + ('v, 'w) dispose_fn option) \<times> 'v set_call list \<times> 'w"

text \<open>\<^verbatim>\<open>createValue: () => TValue\<close>, and a state initialiser.\<close>

type_synonym ('v, 'w) thunk = "'w \<Rightarrow> ('v error + 'v) \<times> 'w"

datatype ('v, 'w) initial_state = InitialValue 'v | InitialFn "('v, 'w) thunk"

section \<open>Memory cells and the state of a Host\<close>

record 'v state_cell =
  cid :: nat
  state :: 'v
  stateChanges :: "'v state_change list"

record ('v, 'w) effect_cell =
  outdated :: bool
  effect :: "('v, 'w) effect_fn"
  dependencies :: "'v list option"
  dispose :: "('v, 'w) dispose_fn option"

record 'v memo_cell =
  memo_value :: 'v
  memo_dependencies :: "'v list"

datatype ('v, 'w) memory_cell =
    StateCell "'v state_cell"
  | EffectCell "('v, 'w) effect_cell"
  | MemoCell "'v memo_cell"

text \<open>
  One record holds a Host (\<open>memoryCells\<close> and \<open>pointer\<close> are its \<^verbatim>\<open>#memory\<close>,
  \<open>args\<close> its \<^verbatim>\<open>#args\<close>, \<open>self\<close> its identity), the module variable \<open>activeHost\<close>,
  the number of \<^verbatim>\<open>#renderAsync\<close> microtasks this Host has queued, the events handed
  to the listener so far, and the outside world. \<open>agentLog\<close> is a history variable:
  the outcome of every attempt to invoke the agent, oldest first. \<open>nextId\<close> supplies the
  identity of the next state cell object.
\<close>

record ('a, 'v, 'w) host =
  memoryCells :: "('v, 'w) memory_cell list"
  pointer :: nat
  nextId :: nat
  args :: "'a option"
  self :: nat
  activeHost :: "nat option"
  microtasks :: nat
  events :: "'v event list"
  agentLog :: "('v error + 'v) list"
  world :: 'w

definition newHost :: "nat \<Rightarrow> 'w \<Rightarrow> ('a, 'v, 'w) host" where
  "newHost h w = \<lparr>memoryCells = [], pointer = 0, nextId = 0, args = None, self = h,
     activeHost = None, microtasks = 0, events = [], agentLog = [], world = w\<rparr>"

section \<open>The dependency comparator\<close>

text \<open>
  Modelled from the spec: \<^verbatim>\<open>are-dependencies-equal.ts\<close> is not among the sources. The
  comparator returns false whenever either side is absent or lengths differ or any
  pairwise element differs by identity/value equality.
\<close>

fun areDependenciesEqual :: "'v list option \<Rightarrow> 'v list option \<Rightarrow> bool" where
  "areDependenciesEqual None _ = False"
| "areDependenciesEqual _ None = False"
| "areDependenciesEqual (Some xs) (Some ys) =
     (length xs = length ys \<and> list_all2 (=) xs ys)"

section \<open>Memory\<close>

text \<open>
  Modelled from the spec: \<^verbatim>\<open>memory.ts\<close> is not among the sources. The operations of
  this section follow section 4.1 of the specification, under the names by which
  \<^verbatim>\<open>index.ts\<close> calls them. \<open>read\<close> returns the cell at the cursor if one exists there;
  \<^verbatim>\<open>write\<close> stores a new cell at the cursor position (the sequence grows at its
  tail); \<open>movePointer\<close> advances the cursor by one.
\<close>

definition read :: "('a, 'v, 'w, 'z) host_scheme \<Rightarrow> ('v, 'w) memory_cell option" where
  "read s = (if pointer s < length (memoryCells s)
             then Some (memoryCells s ! pointer s) else None)"

definition writeCell :: "('v, 'w) memory_cell \<Rightarrow> ('a, 'v, 'w, 'z) host_scheme \<Rightarrow> ('a, 'v, 'w, 'z) host_scheme" where
  "writeCell c s = s\<lparr>memoryCells :=
     (if pointer s < length (memoryCells s)
      then (memoryCells s)[pointer s := c] else memoryCells s @ [c])\<rparr>"

definition movePointer :: "('a, 'v, 'w, 'z) host_scheme \<Rightarrow> ('a, 'v, 'w, 'z) host_scheme" where
  "movePointer s = s\<lparr>pointer := pointer s + 1\<rparr>"

text \<open>
  The setter closure created by \<^verbatim>\<open>Host.useState\<close> (\<^verbatim>\<open>index.ts\<close>, lines 57-65) stands
  here because the closures run by the Memory call it: it appends to the queue of
  the cell it captured and, when its Host is not the active Host, queues a
  \<^verbatim>\<open>#renderAsync\<close> microtask. A cell that a hard reset has removed from the Memory
  is reachable from nowhere else, so appending to it changes nothing that can be
  observed.
\<close>

fun enqueue :: "nat \<Rightarrow> 'v state_change \<Rightarrow> ('v, 'w) memory_cell \<Rightarrow> ('v, 'w) memory_cell" where
  "enqueue i ch (StateCell c) =
     (if cid c = i then StateCell (c\<lparr>stateChanges := stateChanges c @ [ch]\<rparr>)
      else StateCell c)"
| "enqueue i ch c = c"

definition setState :: "nat \<Rightarrow> 'v state_change \<Rightarrow> ('a, 'v, 'w) host \<Rightarrow> ('a, 'v, 'w) host" where
  "setState i ch s =
     s\<lparr>memoryCells := map (enqueue i ch) (memoryCells s),
       microtasks := (if activeHost s \<noteq> Some (self s) then microtasks s + 1
                      else microtasks s)\<rparr>"

fun setStates :: "'v set_call list \<Rightarrow> ('a, 'v, 'w) host \<Rightarrow> ('a, 'v, 'w) host" where
  "setStates [] s = s"
| "setStates ((i, ch) # cs) s = setStates cs (setState i ch s)"

text \<open>Running a cleanup and an effect closure.\<close>

fun runDispose :: "('v, 'w) dispose_fn \<Rightarrow> ('a, 'v, 'w) host \<Rightarrow> 'v error option \<times> ('a, 'v, 'w) host" where
  "runDispose (Dispose d) s =
     (case d (world s) of (r, calls, w) \<Rightarrow> (r, setStates calls (s\<lparr>world := w\<rparr>)))"

fun runEffect :: "('v, 'w) effect_fn \<Rightarrow> ('a, 'v, 'w) host
    \<Rightarrow> ('v error + ('v, 'w) dispose_fn option) \<times> ('a, 'v, 'w) host" where
  "runEffect (Effect f) s =
     (case f (world s) of (r, calls, w) \<Rightarrow> (r, setStates calls (s\<lparr>world := w\<rparr>)))"

text \<open>Modelled from the spec: \<^verbatim>\<open>reset()\<close> of \<^verbatim>\<open>memory.ts\<close>. The cursor goes back to the
  start, the cells stay.\<close>

definition resetSoft :: "('a, 'v, 'w, 'z) host_scheme \<Rightarrow> ('a, 'v, 'w, 'z) host_scheme" where
  "resetSoft s = s\<lparr>pointer := 0\<rparr>"

text \<open>Modelled from the spec: the invocation of the cleanup of the effect cell \<open>c\<close> at
  slot \<open>i\<close>. A cleanup belongs to its cell until it is invoked and is then
  discarded (section 3), whether it returns or throws; the result is what it
  threw, if anything.\<close>

definition invokeCleanup :: "nat \<Rightarrow> ('v, 'w) effect_cell \<Rightarrow> ('a, 'v, 'w) host
    \<Rightarrow> 'v error option \<times> ('a, 'v, 'w) host" where
  "invokeCleanup i c s =
     (case dispose c of
        None \<Rightarrow> (None, s)
      | Some d \<Rightarrow>
          (case runDispose d s of
             (r, s1) \<Rightarrow>
               (r, s1\<lparr>memoryCells :=
                      (memoryCells s1)[i := EffectCell (c\<lparr>dispose := None\<rparr>)]\<rparr>)))"

text \<open>Modelled from the spec: \<^verbatim>\<open>reset(true)\<close> of \<^verbatim>\<open>memory.ts\<close>. For every effect cell, a
  cleanup that is present is invoked and discarded; then the whole sequence is
  discarded and the cursor reset. The loop visits the slots by index. On a
  cleanup that throws here the specification reads two ways: section 4.1 has the
  exception not caught by this layer, section 7 has the teardown run all
  outstanding cleanups that do not themselves throw, and section 9 leaves the
  choice open. The model follows section 7, and with it the doc comment that the
  second source file gives the error event and the reset event (lines 93-96 and
  116-119: the host has lost its state and all side effects have been cleaned
  up): what a cleanup throws is dropped, the cleanups of the later cells are
  still invoked, and the Memory is discarded in every case.\<close>

fun disposeCells :: "nat list \<Rightarrow> ('a, 'v, 'w) host \<Rightarrow> ('a, 'v, 'w) host" where
  "disposeCells [] s = s"
| "disposeCells (i # is) s =
     (case memoryCells s ! i of
        EffectCell c \<Rightarrow> disposeCells is (snd (invokeCleanup i c s))
      | _ \<Rightarrow> disposeCells is s)"

definition resetHard :: "('a, 'v, 'w) host \<Rightarrow> ('a, 'v, 'w) host" where
  "resetHard s =
     (disposeCells [0 ..< length (memoryCells s)] s)\<lparr>memoryCells := [], pointer := 0\<rparr>"

text \<open>Modelled from the spec: \<^verbatim>\<open>applyStateChanges()\<close> of \<^verbatim>\<open>memory.ts\<close>. Every state cell
  folds its queue into its state, left to right, and clears the queue; the result
  tells whether the state of any cell differs from what it was.\<close>

fun applyChange :: "'v \<Rightarrow> 'v state_change \<Rightarrow> 'v" where
  "applyChange st (NewState v) = v"
| "applyChange st (CreateState f) = f st"

fun applyCell :: "('v, 'w) memory_cell \<Rightarrow> ('v, 'w) memory_cell" where
  "applyCell (StateCell c) =
     StateCell (c\<lparr>state := foldl applyChange (state c) (stateChanges c),
                  stateChanges := []\<rparr>)"
| "applyCell c = c"

fun cellChanges :: "('v, 'w) memory_cell \<Rightarrow> bool" where
  "cellChanges (StateCell c) = (foldl applyChange (state c) (stateChanges c) \<noteq> state c)"
| "cellChanges c = False"

definition applyStateChanges :: "('a, 'v, 'w, 'z) host_scheme \<Rightarrow> bool \<times> ('a, 'v, 'w, 'z) host_scheme" where
  "applyStateChanges s =
     (list_ex cellChanges (memoryCells s),
      s\<lparr>memoryCells := map applyCell (memoryCells s)\<rparr>)"

text \<open>Modelled from the spec: \<^verbatim>\<open>triggerEffects()\<close> of \<^verbatim>\<open>memory.ts\<close>. The effect cells are
  visited in ascending slot order; an outdated one first has its previous cleanup
  invoked, then its effect; what the effect returns is the new cleanup, and the
  flag is cleared. What the cleanup or the effect throws ends the visit and is
  passed on to the caller; the cell is then left without a cleanup.\<close>

fun runEffects :: "nat list \<Rightarrow> ('a, 'v, 'w) host \<Rightarrow> 'v error option \<times> ('a, 'v, 'w) host" where
  "runEffects [] s = (None, s)"
| "runEffects (i # is) s =
     (case memoryCells s ! i of
        EffectCell c \<Rightarrow>
          (if outdated c then
             (case invokeCleanup i c s of
                (Some e, s1) \<Rightarrow> (Some e, s1)
              | (None, s1) \<Rightarrow>
                  (case runEffect (effect c) s1 of
                     (Inl e, s2) \<Rightarrow> (Some e, s2)
                   | (Inr d, s2) \<Rightarrow>
                       runEffects is
                         (s2\<lparr>memoryCells :=
                            (memoryCells s2)[i := EffectCell (c\<lparr>dispose := d, outdated := False\<rparr>)]\<rparr>)))
           else runEffects is s)
      | _ \<Rightarrow> runEffects is s)"

definition triggerEffects :: "('a, 'v, 'w) host \<Rightarrow> 'v error option \<times> ('a, 'v, 'w) host" where
  "triggerEffects s = runEffects [0 ..< length (memoryCells s)] s"

section \<open>The primitives of \<^verbatim>\<open>index.ts\<close>\<close>

text \<open>
  Each primitive works on the Memory of the active Host, \<^verbatim>\<open>activeHost!\<close>; the
  functions below are given that Host. The specification leaves open what
  follows when a primitive finds a cell of another kind at the cursor; here that
  is the failure \<open>HookOrder\<close>, thrown by the primitive.
\<close>

definition useState :: "('v, 'w) initial_state \<Rightarrow> ('a, 'v, 'w, 'z) host_scheme
    \<Rightarrow> ('v error + 'v \<times> nat) \<times> ('a, 'v, 'w, 'z) host_scheme" where
  "useState initialState s =
     (case read s of
        None \<Rightarrow>
          (case (case initialState of
                   InitialValue v \<Rightarrow> (Inr v, world s)
                 | InitialFn f \<Rightarrow> f (world s)) of
             (Inl e, w) \<Rightarrow> (Inl e, s\<lparr>world := w\<rparr>)
           | (Inr v, w) \<Rightarrow>
               (Inr (v, nextId s),
                movePointer
                  (writeCell (StateCell \<lparr>cid = nextId s, state = v, stateChanges = []\<rparr>)
                     (s\<lparr>world := w, nextId := nextId s + 1\<rparr>))))
      | Some (StateCell c) \<Rightarrow> (Inr (state c, cid c), movePointer s)
      | Some _ \<Rightarrow> (Inl HookOrder, s))"

definition useEffect :: "('v, 'w) effect_fn \<Rightarrow> 'v list option \<Rightarrow> ('a, 'v, 'w, 'z) host_scheme
    \<Rightarrow> 'v error option \<times> ('a, 'v, 'w, 'z) host_scheme" where
  "useEffect eff deps s =
     (case read s of
        None \<Rightarrow>
          (None,
           movePointer
             (writeCell (EffectCell \<lparr>outdated = True, effect = eff, dependencies = deps,
                                  dispose = None\<rparr>) s))
      | Some (EffectCell c) \<Rightarrow>
          (if \<not> areDependenciesEqual (dependencies c) deps \<or> outdated c
           then (None,
                 movePointer
                   (s\<lparr>memoryCells := (memoryCells s)[pointer s :=
                        EffectCell (c\<lparr>outdated := True, effect := eff,
                                      dependencies := deps\<rparr>)]\<rparr>))
           else (None, movePointer s))
      | Some _ \<Rightarrow> (Some HookOrder, s))"

definition useMemo :: "('v, 'w) thunk \<Rightarrow> 'v list \<Rightarrow> ('a, 'v, 'w, 'z) host_scheme
    \<Rightarrow> ('v error + 'v) \<times> ('a, 'v, 'w, 'z) host_scheme" where
  "useMemo createValue deps s =
     (case read s of
        None \<Rightarrow>
          (case createValue (world s) of
             (Inl e, w) \<Rightarrow> (Inl e, s\<lparr>world := w\<rparr>)
           | (Inr v, w) \<Rightarrow>
               (Inr v,
                movePointer
                  (writeCell (MemoCell \<lparr>memo_value = v, memo_dependencies = deps\<rparr>)
                     (s\<lparr>world := w\<rparr>))))
      | Some (MemoCell c) \<Rightarrow>
          (if \<not> areDependenciesEqual (Some (memo_dependencies c)) (Some deps)
           then
             (case createValue (world s) of
                (Inl e, w) \<Rightarrow> (Inl e, s\<lparr>world := w\<rparr>)
              | (Inr v, w) \<Rightarrow>
                  (Inr v,
                   movePointer
                     (s\<lparr>world := w,
                        memoryCells := (memoryCells s)[pointer s :=
                          MemoCell (c\<lparr>memo_value := v, memo_dependencies := deps\<rparr>)]\<rparr>)))
           else (Inr (memo_value c), movePointer s))
      | Some _ \<Rightarrow> (Inl HookOrder, s))"

section \<open>Agents\<close>

text \<open>
  An agent is a function from its arguments to what its body does: a tree of calls
  of the primitives and of setters, ending in a returned or a thrown value. Each
  primitive hands its result to the rest of the body.
\<close>

datatype ('v, 'w) agent_body =
    Return 'v
  | Throw 'v
  | UseState "('v, 'w) initial_state" "'v \<Rightarrow> nat \<Rightarrow> ('v, 'w) agent_body"
  | UseEffect "('v, 'w) effect_fn" "'v list option" "('v, 'w) agent_body"
  | UseMemo "('v, 'w) thunk" "'v list" "'v \<Rightarrow> ('v, 'w) agent_body"
  | CallSetState nat "'v state_change" "('v, 'w) agent_body"

primrec runBody :: "('v, 'w) agent_body \<Rightarrow> ('a, 'v, 'w) host \<Rightarrow> ('v error + 'v) \<times> ('a, 'v, 'w) host" where
  "runBody (Return v) = (\<lambda>s. (Inr v, s))"
| "runBody (Throw e) = (\<lambda>s. (Inl (Thrown e), s))"
| "runBody (UseState initialState k) = (\<lambda>s.
     case useState initialState s of
       (Inl e, s1) \<Rightarrow> (Inl e, s1)
     | (Inr (v, setter), s1) \<Rightarrow> runBody (k v setter) s1)"
| "runBody (UseEffect eff deps k) = (\<lambda>s.
     case useEffect eff deps s of
       (Some e, s1) \<Rightarrow> (Inl e, s1)
     | (None, s1) \<Rightarrow> runBody k s1)"
| "runBody (UseMemo createValue deps k) = (\<lambda>s.
     case useMemo createValue deps s of
       (Inl e, s1) \<Rightarrow> (Inl e, s1)
     | (Inr v, s1) \<Rightarrow> runBody (k v) s1)"
| "runBody (CallSetState i ch k) = (\<lambda>s. runBody k (setState i ch s))"

type_synonym ('a, 'v, 'w) agent = "'a \<Rightarrow> ('v, 'w) agent_body"

section \<open>The Host\<close>

text \<open>\<^verbatim>\<open>this.#listener(event)\<close>: the event is handed to the listener, which returns or
  throws.\<close>

definition emit :: "'v listener \<Rightarrow> 'v event \<Rightarrow> ('a, 'v, 'w) host \<Rightarrow> 'v error option \<times> ('a, 'v, 'w) host" where
  "emit listener ev s = (listener (events s) ev, s\<lparr>events := events s @ [ev]\<rparr>)"

text \<open>Lines 181-191 of \<^verbatim>\<open>index.ts\<close>: \<^verbatim>\<open>try { activeHost = this; ... this.#agent(...this.#args!) }
  finally { activeHost = undefined }\<close>.\<close>

definition invokeAgent :: "('a, 'v, 'w) agent \<Rightarrow> ('a, 'v, 'w) host \<Rightarrow> ('v error + 'v) \<times> ('a, 'v, 'w) host" where
  "invokeAgent agent s =
     (case args s of
        None \<Rightarrow> (Inl NoArgs, s\<lparr>activeHost := None, agentLog := agentLog s @ [Inl NoArgs]\<rparr>)
      | Some a \<Rightarrow>
          (case runBody (agent a) (s\<lparr>activeHost := Some (self s)\<rparr>) of
             (r, s1) \<Rightarrow> (r, s1\<lparr>activeHost := None, agentLog := agentLog s1 @ [r]\<rparr>)))"

text \<open>
  \<^verbatim>\<open>#render\<close> (lines 172-200). \<open>renderPass\<close> is the body of the inner loop together
  with what follows it up to the next decision to loop: the intermediate event
  for the previous value, the invocation of the agent, the soft reset, and then
  either the inner \<^verbatim>\<open>while\<close> condition holds, or the effects are triggered and the
  outer condition is tested. Both loops continue at the head of the inner body
  with \<^verbatim>\<open>valueEvent\<close> set (\<open>Again\<close>); otherwise the procedure ends (\<open>Stop\<close>) with
  what was thrown, if anything.
\<close>

datatype ('a, 'v, 'w) pass =
    Stop "'v error option" "('a, 'v, 'w) host"
  | Again 'v "('a, 'v, 'w) host"

definition renderPass :: "('a, 'v, 'w) agent \<Rightarrow> 'v listener \<Rightarrow> bool \<Rightarrow> 'v option
    \<Rightarrow> ('a, 'v, 'w) host \<Rightarrow> ('a, 'v, 'w) pass" where
  "renderPass agent listener async valueEvent s =
     (case (case valueEvent of
              None \<Rightarrow> (None, s)
            | Some v \<Rightarrow> emit listener (ValueEvent v async True) s) of
        (Some e, s1) \<Rightarrow> Stop (Some e) s1
      | (None, s1) \<Rightarrow>
          (case invokeAgent agent s1 of
             (Inl e, s2) \<Rightarrow> Stop (Some e) s2
           | (Inr v, s2) \<Rightarrow>
               (case applyStateChanges (resetSoft s2) of
                  (True, s3) \<Rightarrow> Again v s3
                | (False, s3) \<Rightarrow>
                    (case triggerEffects s3 of
                       (Some e, s4) \<Rightarrow> Stop (Some e) s4
                     | (None, s4) \<Rightarrow>
                         (case applyStateChanges s4 of
                            (True, s5) \<Rightarrow> Again v s5
                          | (False, s5) \<Rightarrow>
                              (case emit listener (ValueEvent v async False) s5 of
                                 (r, s6) \<Rightarrow> Stop r s6))))))"

text \<open>
  The loops need not end. The first argument bounds the number of agent
  invocations, and the result \<open>None\<close> says that the bound was reached; otherwise the
  result is the thrown value, if any, and the state. \<open>renderInner\<close> is the private
  \<^verbatim>\<open>#render\<close>, which starts with no \<^verbatim>\<open>valueEvent\<close>.
\<close>

fun renderLoop :: "nat \<Rightarrow> ('a, 'v, 'w) agent \<Rightarrow> 'v listener \<Rightarrow> bool \<Rightarrow> 'v option
    \<Rightarrow> ('a, 'v, 'w) host \<Rightarrow> ('v error option \<times> ('a, 'v, 'w) host) option" where
  "renderLoop 0 agent listener async valueEvent s = None"
| "renderLoop (Suc n) agent listener async valueEvent s =
     (case renderPass agent listener async valueEvent s of
        Stop r s1 \<Rightarrow> Some (r, s1)
      | Again v s1 \<Rightarrow> renderLoop n agent listener async (Some v) s1)"

definition renderInner :: "nat \<Rightarrow> ('a, 'v, 'w) agent \<Rightarrow> 'v listener \<Rightarrow> bool
    \<Rightarrow> ('a, 'v, 'w) host \<Rightarrow> ('v error option \<times> ('a, 'v, 'w) host) option" where
  "renderInner fuel agent listener async s = renderLoop fuel agent listener async None s"

text \<open>The \<^verbatim>\<open>catch\<close> branch shared by \<^verbatim>\<open>render\<close> and \<^verbatim>\<open>#renderAsync\<close>.\<close>

definition catchError :: "'v listener \<Rightarrow> bool \<Rightarrow> 'v error \<Rightarrow> ('a, 'v, 'w) host
    \<Rightarrow> 'v error option \<times> ('a, 'v, 'w) host" where
  "catchError listener async e s = emit listener (ErrorEvent e async) (resetHard s)"

text \<open>\<^verbatim>\<open>render(args)\<close> (lines 145-154).\<close>

definition render :: "nat \<Rightarrow> ('a, 'v, 'w) agent \<Rightarrow> 'v listener \<Rightarrow> 'a
    \<Rightarrow> ('a, 'v, 'w) host \<Rightarrow> ('v error option \<times> ('a, 'v, 'w) host) option" where
  "render fuel agent listener a s =
     (case renderInner fuel agent listener False (s\<lparr>args := Some a\<rparr>) of
        None \<Rightarrow> None
      | Some (None, s1) \<Rightarrow> Some (None, s1)
      | Some (Some e, s1) \<Rightarrow> Some (catchError listener False e s1))"

text \<open>\<^verbatim>\<open>reset()\<close> (lines 156-159).\<close>

definition reset :: "'v listener \<Rightarrow> ('a, 'v, 'w) host \<Rightarrow> 'v error option \<times> ('a, 'v, 'w) host" where
  "reset listener s = emit listener ResetEvent (resetHard s)"

text \<open>\<^verbatim>\<open>#renderAsync\<close> (lines 161-170).\<close>

definition renderAsync :: "nat \<Rightarrow> ('a, 'v, 'w) agent \<Rightarrow> 'v listener
    \<Rightarrow> ('a, 'v, 'w) host \<Rightarrow> ('v error option \<times> ('a, 'v, 'w) host) option" where
  "renderAsync fuel agent listener s =
     (case applyStateChanges s of
        (False, s1) \<Rightarrow> Some (None, s1)
      | (True, s1) \<Rightarrow>
          (case renderInner fuel agent listener True s1 of
             None \<Rightarrow> None
           | Some (None, s2) \<Rightarrow> Some (None, s2)
           | Some (Some e, s2) \<Rightarrow> Some (catchError listener True e s2)))"

text \<open>The microtask queued by a setter: \<^verbatim>\<open>Promise.resolve().then(() => host.#renderAsync())\<close>.\<close>

definition runMicrotask :: "nat \<Rightarrow> ('a, 'v, 'w) agent \<Rightarrow> 'v listener
    \<Rightarrow> ('a, 'v, 'w) host \<Rightarrow> ('v error option \<times> ('a, 'v, 'w) host) option" where
  "runMicrotask fuel agent listener s =
     (if microtasks s = 0 then Some (None, s)
      else renderAsync fuel agent listener (s\<lparr>microtasks := microtasks s - 1\<rparr>))"

section \<open>The hook variant\<close>

text \<open>
  The second source file holds another version of the same class: the agent is
  called a hook, the values of all passes of a render are handed to the listener
  in one rendering event, and the setter tests the module variable
  \<^verbatim>\<open>rendering\<close>, which \<^verbatim>\<open>#render\<close> sets for its whole duration. That variable is
  shared by all Hosts of the module; here it is a field of the state of the one
  Host that is modelled, as \<open>activeHost\<close> is. The Memory, the comparator and the
  three primitives are those above (the primitives of the two files differ in the
  setter only); what follows are the parts that differ. A name that the two files
  share carries the suffix \<open>_hook\<close>.
\<close>

datatype 'v hook_event =
    RenderingEvent 'v "'v list"
  | HookResetEvent
  | HookErrorEvent "'v error"

type_synonym 'v hook_listener = "'v hook_event list \<Rightarrow> 'v hook_event \<Rightarrow> 'v error option"

record ('a, 'v, 'w) hook_host = "('a, 'v, 'w) host" +
  rendering :: bool
  hookEvents :: "'v hook_event list"

definition newHookHost :: "nat \<Rightarrow> 'w \<Rightarrow> ('a, 'v, 'w) hook_host" where
  "newHookHost h w = \<lparr>memoryCells = [], pointer = 0, nextId = 0, args = None, self = h,
     activeHost = None, microtasks = 0, events = [], agentLog = [], world = w,
     rendering = False, hookEvents = []\<rparr>"

text \<open>The setter (lines 172-180 of the second file): \<^verbatim>\<open>if (!rendering)\<close>.\<close>

definition setState_hook :: "nat \<Rightarrow> 'v state_change \<Rightarrow> ('a, 'v, 'w) hook_host \<Rightarrow> ('a, 'v, 'w) hook_host" where
  "setState_hook i ch s =
     s\<lparr>memoryCells := map (enqueue i ch) (memoryCells s),
       microtasks := (if \<not> rendering s then microtasks s + 1 else microtasks s)\<rparr>"

fun setStates_hook :: "'v set_call list \<Rightarrow> ('a, 'v, 'w) hook_host \<Rightarrow> ('a, 'v, 'w) hook_host" where
  "setStates_hook [] s = s"
| "setStates_hook ((i, ch) # cs) s = setStates_hook cs (setState_hook i ch s)"

fun runDispose_hook :: "('v, 'w) dispose_fn \<Rightarrow> ('a, 'v, 'w) hook_host
    \<Rightarrow> 'v error option \<times> ('a, 'v, 'w) hook_host" where
  "runDispose_hook (Dispose d) s =
     (case d (world s) of (r, calls, w) \<Rightarrow> (r, setStates_hook calls (s\<lparr>world := w\<rparr>)))"

fun runEffect_hook :: "('v, 'w) effect_fn \<Rightarrow> ('a, 'v, 'w) hook_host
    \<Rightarrow> ('v error + ('v, 'w) dispose_fn option) \<times> ('a, 'v, 'w) hook_host" where
  "runEffect_hook (Effect f) s =
     (case f (world s) of (r, calls, w) \<Rightarrow> (r, setStates_hook calls (s\<lparr>world := w\<rparr>)))"

text \<open>Modelled from the spec: the invocation of a cleanup, \<^verbatim>\<open>reset(true)\<close> and
  \<^verbatim>\<open>triggerEffects()\<close> of \<^verbatim>\<open>memory.ts\<close>, as above, with the closures calling the setter
  of this variant.\<close>

definition invokeCleanup_hook :: "nat \<Rightarrow> ('v, 'w) effect_cell \<Rightarrow> ('a, 'v, 'w) hook_host
    \<Rightarrow> 'v error option \<times> ('a, 'v, 'w) hook_host" where
  "invokeCleanup_hook i c s =
     (case dispose c of
        None \<Rightarrow> (None, s)
      | Some d \<Rightarrow>
          (case runDispose_hook d s of
             (r, s1) \<Rightarrow>
               (r, s1\<lparr>memoryCells :=
                      (memoryCells s1)[i := EffectCell (c\<lparr>dispose := None\<rparr>)]\<rparr>)))"

fun disposeCells_hook :: "nat list \<Rightarrow> ('a, 'v, 'w) hook_host \<Rightarrow> ('a, 'v, 'w) hook_host" where
  "disposeCells_hook [] s = s"
| "disposeCells_hook (i # is) s =
     (case memoryCells s ! i of
        EffectCell c \<Rightarrow> disposeCells_hook is (snd (invokeCleanup_hook i c s))
      | _ \<Rightarrow> disposeCells_hook is s)"

definition resetHard_hook :: "('a, 'v, 'w) hook_host \<Rightarrow> ('a, 'v, 'w) hook_host" where
  "resetHard_hook s =
     (disposeCells_hook [0 ..< length (memoryCells s)] s)\<lparr>memoryCells := [], pointer := 0\<rparr>"

fun runEffects_hook :: "nat list \<Rightarrow> ('a, 'v, 'w) hook_host
    \<Rightarrow> 'v error option \<times> ('a, 'v, 'w) hook_host" where
  "runEffects_hook [] s = (None, s)"
| "runEffects_hook (i # is) s =
     (case memoryCells s ! i of
        EffectCell c \<Rightarrow>
          (if outdated c then
             (case invokeCleanup_hook i c s of
                (Some e, s1) \<Rightarrow> (Some e, s1)
              | (None, s1) \<Rightarrow>
                  (case runEffect_hook (effect c) s1 of
                     (Inl e, s2) \<Rightarrow> (Some e, s2)
                   | (Inr d, s2) \<Rightarrow>
                       runEffects_hook is
                         (s2\<lparr>memoryCells :=
                            (memoryCells s2)[i := EffectCell (c\<lparr>dispose := d, outdated := False\<rparr>)]\<rparr>)))
           else runEffects_hook is s)
      | _ \<Rightarrow> runEffects_hook is s)"

definition triggerEffects_hook :: "('a, 'v, 'w) hook_host \<Rightarrow> 'v error option \<times> ('a, 'v, 'w) hook_host" where
  "triggerEffects_hook s = runEffects_hook [0 ..< length (memoryCells s)] s"

primrec runBody_hook :: "('v, 'w) agent_body \<Rightarrow> ('a, 'v, 'w) hook_host
    \<Rightarrow> ('v error + 'v) \<times> ('a, 'v, 'w) hook_host" where
  "runBody_hook (Return v) = (\<lambda>s. (Inr v, s))"
| "runBody_hook (Throw e) = (\<lambda>s. (Inl (Thrown e), s))"
| "runBody_hook (UseState initialState k) = (\<lambda>s.
     case useState initialState s of
       (Inl e, s1) \<Rightarrow> (Inl e, s1)
     | (Inr (v, setter), s1) \<Rightarrow> runBody_hook (k v setter) s1)"
| "runBody_hook (UseEffect eff deps k) = (\<lambda>s.
     case useEffect eff deps s of
       (Some e, s1) \<Rightarrow> (Inl e, s1)
     | (None, s1) \<Rightarrow> runBody_hook k s1)"
| "runBody_hook (UseMemo createValue deps k) = (\<lambda>s.
     case useMemo createValue deps s of
       (Inl e, s1) \<Rightarrow> (Inl e, s1)
     | (Inr v, s1) \<Rightarrow> runBody_hook (k v) s1)"
| "runBody_hook (CallSetState i ch k) = (\<lambda>s. runBody_hook k (setState_hook i ch s))"

definition emit_hook :: "'v hook_listener \<Rightarrow> 'v hook_event \<Rightarrow> ('a, 'v, 'w) hook_host
    \<Rightarrow> 'v error option \<times> ('a, 'v, 'w) hook_host" where
  "emit_hook listener ev s = (listener (hookEvents s) ev, s\<lparr>hookEvents := hookEvents s @ [ev]\<rparr>)"

text \<open>Lines 299-311 of the second file: the hook is invoked with \<^verbatim>\<open>activeHost\<close> set, and
  \<^verbatim>\<open>finally\<close> clears it.\<close>

definition invokeHook :: "('a, 'v, 'w) agent \<Rightarrow> ('a, 'v, 'w) hook_host
    \<Rightarrow> ('v error + 'v) \<times> ('a, 'v, 'w) hook_host" where
  "invokeHook hook s =
     (case args s of
        None \<Rightarrow> (Inl NoArgs, s\<lparr>activeHost := None, agentLog := agentLog s @ [Inl NoArgs]\<rparr>)
      | Some a \<Rightarrow>
          (case runBody_hook (hook a) (s\<lparr>activeHost := Some (self s)\<rparr>) of
             (r, s1) \<Rightarrow> (r, s1\<lparr>activeHost := None, agentLog := agentLog s1 @ [r]\<rparr>)))"

text \<open>
  \<^verbatim>\<open>#render\<close> (lines 291-325 of the second file). \<^verbatim>\<open>results\<close> holds the values of the
  passes so far, the latest first (\<^verbatim>\<open>results.unshift(result)\<close>); the empty list
  stands for \<^verbatim>\<open>undefined\<close>. The event is made of \<^verbatim>\<open>results[0]\<close> and
  \<^verbatim>\<open>results.slice(1)\<close>.
\<close>

datatype ('a, 'v, 'w) hook_pass =
    StopHook "'v error option" "('a, 'v, 'w) hook_host"
  | AgainHook "'v list" "('a, 'v, 'w) hook_host"

definition renderPass_hook :: "('a, 'v, 'w) agent \<Rightarrow> 'v hook_listener \<Rightarrow> 'v list
    \<Rightarrow> ('a, 'v, 'w) hook_host \<Rightarrow> ('a, 'v, 'w) hook_pass" where
  "renderPass_hook hook listener results s =
     (case invokeHook hook s of
        (Inl e, s2) \<Rightarrow> StopHook (Some e) s2
      | (Inr v, s2) \<Rightarrow>
          (case applyStateChanges (resetSoft s2) of
             (True, s3) \<Rightarrow> AgainHook (v # results) s3
           | (False, s3) \<Rightarrow>
               (case triggerEffects_hook s3 of
                  (Some e, s4) \<Rightarrow> StopHook (Some e) s4
                | (None, s4) \<Rightarrow>
                    (case applyStateChanges s4 of
                       (True, s5) \<Rightarrow> AgainHook (v # results) s5
                     | (False, s5) \<Rightarrow>
                         (case emit_hook listener (RenderingEvent v results) s5 of
                            (r, s6) \<Rightarrow> StopHook r s6)))))"

fun renderLoop_hook :: "nat \<Rightarrow> ('a, 'v, 'w) agent \<Rightarrow> 'v hook_listener \<Rightarrow> 'v list
    \<Rightarrow> ('a, 'v, 'w) hook_host \<Rightarrow> ('v error option \<times> ('a, 'v, 'w) hook_host) option" where
  "renderLoop_hook 0 hook listener results s = None"
| "renderLoop_hook (Suc n) hook listener results s =
     (case renderPass_hook hook listener results s of
        StopHook r s1 \<Rightarrow> Some (r, s1)
      | AgainHook results1 s1 \<Rightarrow> renderLoop_hook n hook listener results1 s1)"

text \<open>\<^verbatim>\<open>try { rendering = true; ... } finally { rendering = false }\<close>.\<close>

definition renderInner_hook :: "nat \<Rightarrow> ('a, 'v, 'w) agent \<Rightarrow> 'v hook_listener
    \<Rightarrow> ('a, 'v, 'w) hook_host \<Rightarrow> ('v error option \<times> ('a, 'v, 'w) hook_host) option" where
  "renderInner_hook fuel hook listener s =
     (case renderLoop_hook fuel hook listener [] (s\<lparr>rendering := True\<rparr>) of
        None \<Rightarrow> None
      | Some (r, s1) \<Rightarrow> Some (r, s1\<lparr>rendering := False\<rparr>))"

definition catchError_hook :: "'v hook_listener \<Rightarrow> 'v error \<Rightarrow> ('a, 'v, 'w) hook_host
    \<Rightarrow> 'v error option \<times> ('a, 'v, 'w) hook_host" where
  "catchError_hook listener e s = emit_hook listener (HookErrorEvent e) (resetHard_hook s)"

text \<open>\<^verbatim>\<open>render(...args)\<close> (lines 260-269 of the second file).\<close>

definition render_hook :: "nat \<Rightarrow> ('a, 'v, 'w) agent \<Rightarrow> 'v hook_listener \<Rightarrow> 'a
    \<Rightarrow> ('a, 'v, 'w) hook_host \<Rightarrow> ('v error option \<times> ('a, 'v, 'w) hook_host) option" where
  "render_hook fuel hook listener a s =
     (case renderInner_hook fuel hook listener (s\<lparr>args := Some a\<rparr>) of
        None \<Rightarrow> None
      | Some (None, s1) \<Rightarrow> Some (None, s1)
      | Some (Some e, s1) \<Rightarrow> Some (catchError_hook listener e s1))"

text \<open>\<^verbatim>\<open>#renderAsynchronously\<close> (lines 280-289 of the second file).\<close>

definition renderAsynchronously :: "nat \<Rightarrow> ('a, 'v, 'w) agent \<Rightarrow> 'v hook_listener
    \<Rightarrow> ('a, 'v, 'w) hook_host \<Rightarrow> ('v error option \<times> ('a, 'v, 'w) hook_host) option" where
  "renderAsynchronously fuel hook listener s =
     (case applyStateChanges s of
        (False, s1) \<Rightarrow> Some (None, s1)
      | (True, s1) \<Rightarrow>
          (case renderInner_hook fuel hook listener s1 of
             None \<Rightarrow> None
           | Some (None, s2) \<Rightarrow> Some (None, s2)
           | Some (Some e, s2) \<Rightarrow> Some (catchError_hook listener e s2)))"

section \<open>Notions used in the statements\<close>

text \<open>
  Kinds of events, and the intermediate value events for a list of values, oldest
  first.
\<close>

fun isValueEvent :: "'v event \<Rightarrow> bool" where
  "isValueEvent (ValueEvent v async i) = True"
| "isValueEvent ev = False"

fun isErrorEvent :: "'v event \<Rightarrow> bool" where
  "isErrorEvent (ErrorEvent e async) = True"
| "isErrorEvent ev = False"

fun isAsync :: "'v event \<Rightarrow> bool" where
  "isAsync (ValueEvent v async i) = async"
| "isAsync ResetEvent = False"
| "isAsync (ErrorEvent e async) = async"

definition intermediates :: "bool \<Rightarrow> 'v list \<Rightarrow> 'v event list" where
  "intermediates async vs = map (\<lambda>v. ValueEvent v async True) vs"

text \<open>
  What an effect slot holds: the stored dependency list and the flag of the cell that
  \<open>read\<close> returned.
\<close>

fun effectDependencies :: "('v, 'w) memory_cell option \<Rightarrow> 'v list option" where
  "effectDependencies (Some (EffectCell c)) = dependencies c"
| "effectDependencies _ = None"

fun effectOutdated :: "('v, 'w) memory_cell option \<Rightarrow> bool" where
  "effectOutdated (Some (EffectCell c)) = outdated c"
| "effectOutdated _ = False"

text \<open>
  A Memory is drained when no state cell has a pending update, and holds no state
  when none of its cells is a state cell.
\<close>

fun drainedCell :: "('v, 'w) memory_cell \<Rightarrow> bool" where
  "drainedCell (StateCell c) = (stateChanges c = [])"
| "drainedCell c = True"

definition drained :: "('a, 'v, 'w, 'z) host_scheme \<Rightarrow> bool" where
  "drained s = list_all drainedCell (memoryCells s)"

fun isStateCell :: "('v, 'w) memory_cell \<Rightarrow> bool" where
  "isStateCell (StateCell c) = True"
| "isStateCell c = False"

definition noStateCells :: "('a, 'v, 'w) host \<Rightarrow> bool" where
  "noStateCells s = (\<not> list_ex isStateCell (memoryCells s))"

text \<open>
  The bodies that never call the state primitive: agent bodies built without
  \<open>UseState\<close>.
\<close>

datatype ('v, 'w) plain_body =
    PlainReturn 'v
  | PlainThrow 'v
  | PlainEffect "('v, 'w) effect_fn" "'v list option" "('v, 'w) plain_body"
  | PlainMemo "('v, 'w) thunk" "'v list" "'v \<Rightarrow> ('v, 'w) plain_body"
  | PlainSetState nat "'v state_change" "('v, 'w) plain_body"

primrec withoutState :: "('v, 'w) plain_body \<Rightarrow> ('v, 'w) agent_body" where
  "withoutState (PlainReturn v) = Return v"
| "withoutState (PlainThrow e) = Throw e"
| "withoutState (PlainEffect eff deps k) = UseEffect eff deps (withoutState k)"
| "withoutState (PlainMemo createValue deps k) =
     UseMemo createValue deps (\<lambda>v. withoutState (k v))"
| "withoutState (PlainSetState i ch k) = CallSetState i ch (withoutState k)"

text \<open>
  A sequence of \<open>render\<close> calls on one Host, whatever each call throws to its caller;
  and the sequences in which, call after call, the agent returns and no effect or
  cleanup throws when the effects are triggered after the agent's single pass.
\<close>

fun renderAll :: "nat \<Rightarrow> ('a, 'v, 'w) agent \<Rightarrow> 'v listener \<Rightarrow> 'a list
    \<Rightarrow> ('a, 'v, 'w) host \<Rightarrow> ('a, 'v, 'w) host option" where
  "renderAll fuel agent listener [] s = Some s"
| "renderAll fuel agent listener (a # as) s =
     (case render fuel agent listener a s of
        None \<Rightarrow> None
      | Some (r, t) \<Rightarrow> renderAll fuel agent listener as t)"

fun neverThrows :: "nat \<Rightarrow> ('a, 'v, 'w) agent \<Rightarrow> 'v listener \<Rightarrow> 'a list
    \<Rightarrow> ('a, 'v, 'w) host \<Rightarrow> bool" where
  "neverThrows fuel agent listener [] s = True"
| "neverThrows fuel agent listener (a # as) s =
     (case invokeAgent agent (s\<lparr>args := Some a\<rparr>) of
        (Inl e, s1) \<Rightarrow> False
      | (Inr v, s1) \<Rightarrow>
          (case triggerEffects (snd (applyStateChanges (resetSoft s1))) of
             (Some e, s2) \<Rightarrow> False
           | (None, s2) \<Rightarrow>
               (case render fuel agent listener a s of
                  None \<Rightarrow> False
                | Some (r, t) \<Rightarrow> neverThrows fuel agent listener as t)))"

section \<open>Notions used in the proofs\<close>

text \<open>
  \<open>sameOutside\<close> relates two states that agree on everything but the Memory, the
  microtask queue and the outside world. \<open>accepts\<close> says that the listener, handed
  the given events one after the other, throws on none. \<open>stops\<close> lists the four ways
  in which the render procedure ends, with the values \<open>pre\<close> not yet emitted when it
  starts: the listener throws on an intermediate event, the agent throws, an
  effect or cleanup throws, or the final event is emitted.
\<close>

definition sameOutside :: "('a, 'v, 'w) host \<Rightarrow> ('a, 'v, 'w) host \<Rightarrow> bool" where
  "sameOutside s t \<longleftrightarrow> events t = events s \<and> agentLog t = agentLog s \<and>
     activeHost t = activeHost s \<and> args t = args s \<and> self t = self s"

fun accepts :: "'v listener \<Rightarrow> 'v event list \<Rightarrow> 'v event list \<Rightarrow> bool" where
  "accepts listener base [] = True"
| "accepts listener base (ev # evs) =
     (listener base ev = None \<and> accepts listener (base @ [ev]) evs)"

fun prior :: "'v option \<Rightarrow> 'v list" where
  "prior None = []"
| "prior (Some v) = [v]"

definition stops :: "'v listener \<Rightarrow> bool \<Rightarrow> ('a, 'v, 'w) host \<Rightarrow> 'v list \<Rightarrow> 'v error option
    \<Rightarrow> ('a, 'v, 'w) host \<Rightarrow> bool" where
  "stops li a s pre r t \<longleftrightarrow>
     (\<exists>vs. agentLog t = agentLog s @ map Inr vs \<and> pre @ vs \<noteq> [] \<and>
        events t = events s @ intermediates a (pre @ vs) \<and>
        accepts li (events s) (intermediates a (butlast (pre @ vs))) \<and> r \<noteq> None \<and>
        r = li (events s @ intermediates a (butlast (pre @ vs)))
              (ValueEvent (last (pre @ vs)) a True))
   \<or> (\<exists>vs e. r = Some e \<and> agentLog t = agentLog s @ map Inr vs @ [Inl e] \<and>
        events t = events s @ intermediates a (pre @ vs) \<and>
        accepts li (events s) (intermediates a (pre @ vs)))
   \<or> (\<exists>vs v e. r = Some e \<and> agentLog t = agentLog s @ map Inr (vs @ [v]) \<and>
        events t = events s @ intermediates a (pre @ vs) \<and>
        accepts li (events s) (intermediates a (pre @ vs)))
   \<or> (\<exists>vs v. agentLog t = agentLog s @ map Inr (vs @ [v]) \<and>
        events t = events s @ intermediates a (pre @ vs) @ [ValueEvent v a False] \<and>
        accepts li (events s) (intermediates a (pre @ vs)) \<and>
        r = li (events s @ intermediates a (pre @ vs)) (ValueEvent v a False))"

text \<open>
  \<open>sameHook\<close> is the frame of the hook variant: two states that agree on everything
  but the Memory, the active Host and the outside world, and on the microtask
  queue too when a render is running.
\<close>

definition sameHook :: "('a, 'v, 'w) hook_host \<Rightarrow> ('a, 'v, 'w) hook_host \<Rightarrow> bool" where
  "sameHook s t \<longleftrightarrow> hookEvents t = hookEvents s \<and> agentLog t = agentLog s \<and>
     rendering t = rendering s \<and> args t = args s \<and> self t = self s \<and>
     (rendering s \<longrightarrow> microtasks t = microtasks s)"

section \<open>Example agents and listeners\<close>

text \<open>
  Four listeners: one that never throws, one that throws on the final value 1, one
  that throws what an error event carries, and one that throws on the final value
  1 and again on every error event.
\<close>

definition quiet :: "nat listener" where "quiet evs ev = None"

definition picky :: "nat listener" where
  "picky evs ev = (if ev = ValueEvent 1 False False then Some (Thrown 5) else None)"

definition rethrow :: "nat listener" where
  "rethrow evs ev = (case ev of ErrorEvent e a \<Rightarrow> Some e | _ \<Rightarrow> None)"

definition pickyTwice :: "nat listener" where
  "pickyTwice evs ev =
     (if ev = ValueEvent 1 False False then Some (Thrown 5)
      else if isErrorEvent ev then Some (Thrown 6) else None)"

text \<open>
  Agents without effects: one that throws, one that counts its state up to 2 in
  three passes, one that returns its argument, one that holds a state, one that
  throws in its second pass, and one that memoises a value on its argument.
\<close>

definition thrower :: "(unit, nat, unit) agent" where
  "thrower u = Throw 7"

definition counter :: "(unit, nat, unit) agent" where
  "counter u = UseState (InitialValue 0) (\<lambda>v setter.
     if v < 2 then CallSetState setter (NewState (v + 1)) (Return v) else Return v)"

definition echo :: "(nat, nat, unit) agent" where
  "echo d = Return d"

definition stateAgent :: "(unit, nat, unit) agent" where
  "stateAgent u = UseState (InitialValue 0) (\<lambda>v setter. Return v)"

definition lateThrower :: "(unit, nat, unit) agent" where
  "lateThrower u = UseState (InitialValue 0) (\<lambda>v setter.
     if v = 0 then CallSetState setter (NewState 1) (Return v) else Throw 7)"

definition memoAgent :: "(nat, nat, nat) agent" where
  "memoAgent d = UseMemo (\<lambda>w. (Inr (10 * d + w), w + 1)) [d] (\<lambda>v. Return v)"

text \<open>
  States reached by these agents: after one render, and after two setter calls made
  while the Host is idle.
\<close>

definition afterFirstMemo :: "(nat, nat, nat) host" where
  "afterFirstMemo = snd (the (render 1 memoAgent quiet 4 (newHost 0 0)))"

definition idleState :: "(unit, nat, unit) host" where
  "idleState = snd (the (render 1 stateAgent quiet () (newHost 0 ())))"

definition twiceSet :: "(unit, nat, unit) host" where
  "twiceSet = setState 0 (CreateState (\<lambda>v. v + 2)) (setState 0 (NewState 5) idleState)"

text \<open>
  Agents with an effect whose cleanup throws. The effect of the first three runs
  once, so that its cleanup is invoked by the hard reset only; the effect of
  \<open>restless\<close> runs in every render, so that its cleanup is invoked inside the render
  procedure. That effect and its cleanup leave a mark in the outside world, 1 and
  10, each time they are invoked.
\<close>

definition throwingCleanup :: "(nat, unit) effect_fn" where
  "throwingCleanup = Effect (\<lambda>w. (Inr (Some (Dispose (\<lambda>w. (Some (Thrown 9), [], w)))), [], w))"

definition leaky :: "(nat, nat, unit) agent" where
  "leaky d = UseEffect throwingCleanup (Some []) (if d = 0 then Return 0 else Throw 7)"

definition leakyLate :: "(nat, nat, unit) agent" where
  "leakyLate d = UseState (InitialValue 0) (\<lambda>v setter.
     UseEffect throwingCleanup (Some [])
       (if d = 0 then Return v
        else if v = 0 then CallSetState setter (NewState 1) (Return v)
        else Throw 7))"

definition leakyEcho :: "(nat, nat, unit) agent" where
  "leakyEcho d = UseEffect throwingCleanup (Some []) (Return d)"

definition noisyCleanup :: "(nat, nat list) effect_fn" where
  "noisyCleanup =
     Effect (\<lambda>w. (Inr (Some (Dispose (\<lambda>w. (Some (Thrown 9), [], w @ [10])))), [], w @ [1]))"

definition restless :: "(nat, nat, nat list) agent" where
  "restless d = UseEffect noisyCleanup None (Return d)"

text \<open>
  An agent whose effect records, in the outside world, the state it was created
  with, and which sets its state to its argument; the states in which a later pass
  reaches its effect slot: in the first pass of a render, and in the second pass of
  the render with argument 1.
\<close>

definition logging :: "nat \<Rightarrow> (nat, nat list) effect_fn" where
  "logging v = Effect (\<lambda>w. (Inr None, [], w @ [v]))"

definition rerunAgent :: "(nat, nat, nat list) agent" where
  "rerunAgent d = UseState (InitialValue 0) (\<lambda>v setter.
     UseEffect (logging v) (Some [d])
       (if v < d then CallSetState setter (NewState d) (Return v) else Return v))"

definition afterFirstRerun :: "(nat, nat, nat list) host" where
  "afterFirstRerun = snd (the (render 2 rerunAgent quiet 0 (newHost 0 [])))"

definition effectSlot :: "(nat, nat, nat list) host" where
  "effectSlot = afterFirstRerun\<lparr>pointer := 1, activeHost := Some 0\<rparr>"

definition secondPass :: "(nat, nat, nat list) host" where
  "secondPass =
     snd (useState (InitialValue 0)
       ((snd (applyStateChanges (resetSoft (snd (invokeAgent rerunAgent
          (afterFirstRerun\<lparr>args := Some 1\<rparr>))))))\<lparr>activeHost := Some 0\<rparr>))"

text \<open>
  An agent whose effect calls the setter of its state, and a body without state
  whose effect calls a setter that belongs to no cell.
\<close>

definition effectSetter :: "(unit, nat, unit) agent" where
  "effectSetter u = UseState (InitialValue 0) (\<lambda>v setter.
     UseEffect (Effect (\<lambda>w. (Inr None, [(setter, NewState 1)], w))) (Some []) (Return v))"

definition memoEffect :: "nat \<Rightarrow> (nat, nat) plain_body" where
  "memoEffect d =
     PlainMemo (\<lambda>w. (Inr (10 * d + w), w + 1)) [d] (\<lambda>v.
       PlainEffect (Effect (\<lambda>w. (Inr None, [(0, NewState 3)], w))) None (PlainReturn v))"

text \<open>
  The usage example of the README: the agent, the five calls it makes in a row, and
  what follows them: the two microtasks queued by the effect's setter calls, then
  the timer, which calls the setter of the second state cell, and its microtask.
\<close>

definition greeting :: "(string, string, unit) agent" where
  "greeting salutation = UseState (InitialValue ''John Doe'') (\<lambda>name setName.
     UseEffect
       (Effect (\<lambda>w. (Inr (Some (Dispose (\<lambda>w. (None, [], w)))),
                       (if name = ''John Doe'' then [(setName, NewState ''Jane Doe'')] else []), w)))
       (Some [name])
       (UseMemo (\<lambda>w. (Inr (salutation @ '', '' @ name @ ''!''), w)) [salutation, name]
          (\<lambda>v. Return v)))"

definition silent :: "string listener" where "silent evs ev = None"

definition readmeCalls :: "(string, string, unit) host" where
  "readmeCalls =
     snd (the (render 3 greeting silent ''Hey''
       (snd (the (render 3 greeting silent ''Hi''
       (snd (reset silent
       (snd (the (render 3 greeting silent ''Welcome''
       (snd (the (render 3 greeting silent ''Hello''
       (newHost 0 ()))))))))))))))"

definition readmeLater :: "(string, string, unit) host" where
  "readmeLater =
     snd (the (runMicrotask 3 greeting silent
       (setState 1 (NewState ''Johnny Doe'')
       (snd (the (runMicrotask 3 greeting silent
       (snd (the (runMicrotask 3 greeting silent
       (readmeCalls))))))))))"

text \<open>
  A listener of the hook variant that never throws, and the states of the hook
  variant that correspond to the ones above: before the first render, after one
  render, and after two setter calls made while no render is running.
\<close>

definition quiet_hook :: "nat hook_listener" where "quiet_hook evs ev = None"

definition startHook :: "(unit, nat, unit) hook_host" where
  "startHook = (newHookHost 0 ())\<lparr>args := Some ()\<rparr>"

definition idleHook :: "(unit, nat, unit) hook_host" where
  "idleHook = snd (the (render_hook 1 stateAgent quiet_hook () (newHookHost 0 ())))"

definition twiceSetHook :: "(unit, nat, unit) hook_host" where
  "twiceSetHook =
     setState_hook 0 (CreateState (\<lambda>v. v + 2)) (setState_hook 0 (NewState 5) idleHook)"

section \<open>Evaluation\<close>

text \<open>
  The equations by which a concrete run is evaluated.
\<close>

lemmas run =
  render_def renderInner_def renderAsync_def renderPass_def catchError_def reset_def
  invokeAgent_def emit_def useState_def useEffect_def useMemo_def read_def writeCell_def
  movePointer_def setState_def applyStateChanges_def resetSoft_def resetHard_def
  invokeCleanup_def
  triggerEffects_def newHost_def runMicrotask_def eval_nat_numeral

lemmas run_hook =
  render_hook_def renderInner_hook_def renderAsynchronously_def renderPass_hook_def
  catchError_hook_def invokeHook_def emit_hook_def setState_hook_def resetHard_hook_def
  invokeCleanup_hook_def
  triggerEffects_hook_def newHookHost_def

section \<open>Frame conditions\<close>

lemma sameOutside_refl [simp]: "sameOutside s s"
  by (simp add: sameOutside_def)

lemma sameOutside_trans: "sameOutside s t \<Longrightarrow> sameOutside t u \<Longrightarrow> sameOutside s u"
  by (simp add: sameOutside_def)

lemma sameOutside_upd [simp]:
  "sameOutside s (t\<lparr>memoryCells := m\<rparr>) = sameOutside s t"
  "sameOutside s (t\<lparr>pointer := p\<rparr>) = sameOutside s t"
  "sameOutside s (t\<lparr>nextId := n\<rparr>) = sameOutside s t"
  "sameOutside s (t\<lparr>microtasks := k\<rparr>) = sameOutside s t"
  "sameOutside s (t\<lparr>world := w\<rparr>) = sameOutside s t"
  by (simp_all add: sameOutside_def)

lemma setState_same: "sameOutside s (setState i ch s)"
  by (simp add: setState_def)

lemma setStates_same: "sameOutside s t \<Longrightarrow> sameOutside s (setStates cs t)"
proof (induction cs arbitrary: t)
  case Nil
  then show ?case by simp
next
  case (Cons c cs)
  obtain i ch where c: "c = (i, ch)" by (cases c)
  have "sameOutside s (setState i ch t)"
    using Cons.prems setState_same sameOutside_trans by blast
  then show ?case using Cons.IH c by simp
qed

lemma runDispose_same: "sameOutside s t \<Longrightarrow> sameOutside s (snd (runDispose d t))"
  by (cases d) (simp add: setStates_same split: prod.splits)

lemma runEffect_same: "sameOutside s t \<Longrightarrow> sameOutside s (snd (runEffect f t))"
  by (cases f) (simp add: setStates_same split: prod.splits)

lemma invokeCleanup_same: "sameOutside s t \<Longrightarrow> sameOutside s (snd (invokeCleanup i c t))"
proof (cases "dispose c")
  case None
  then show "sameOutside s t \<Longrightarrow> ?thesis" by (simp add: invokeCleanup_def)
next
  case (Some d)
  assume st: "sameOutside s t"
  obtain r t1 where rd: "runDispose d t = (r, t1)" by (cases "runDispose d t")
  have "sameOutside s t1" using runDispose_same [OF st, of d] rd by simp
  then show ?thesis using Some rd by (simp add: invokeCleanup_def)
qed

lemma disposeCells_same: "sameOutside s t \<Longrightarrow> sameOutside s (disposeCells is t)"
proof (induction "is" arbitrary: t)
  case Nil
  then show ?case by simp
next
  case (Cons i "is")
  show ?case
  proof (cases "memoryCells t ! i")
    case (EffectCell c)
    have "sameOutside s (snd (invokeCleanup i c t))"
      using Cons.prems by (rule invokeCleanup_same)
    then show ?thesis using EffectCell Cons.IH by simp
  qed (use Cons in simp_all)
qed

lemma resetHard_same: "sameOutside s t \<Longrightarrow> sameOutside s (resetHard t)"
  using disposeCells_same [of s t "[0 ..< length (memoryCells t)]"]
  by (simp add: resetHard_def)

lemma applyStateChanges_same: "sameOutside s t \<Longrightarrow> sameOutside s (snd (applyStateChanges t))"
  by (simp add: applyStateChanges_def)

lemma runEffects_same: "sameOutside s t \<Longrightarrow> sameOutside s (snd (runEffects is t))"
proof (induction "is" arbitrary: t)
  case Nil
  then show ?case by simp
next
  case (Cons i "is")
  show ?case
  proof (cases "memoryCells t ! i")
    case (EffectCell c)
    show ?thesis
    proof (cases "outdated c")
      case False
      then show ?thesis using EffectCell Cons by simp
    next
      case True
      obtain r t1 where rd: "invokeCleanup i c t = (r, t1)" by (cases "invokeCleanup i c t")
      have t1: "sameOutside s t1" using invokeCleanup_same [OF Cons.prems, of i c] rd by simp
      show ?thesis
      proof (cases r)
        case (Some e)
        then show ?thesis using EffectCell True rd t1 by simp
      next
        case None
        obtain q t2 where re: "runEffect (effect c) t1 = (q, t2)" by (cases "runEffect (effect c) t1")
        have t2: "sameOutside s t2" using runEffect_same [OF t1, of "effect c"] re by simp
        show ?thesis
          using EffectCell True rd None re t2 Cons.IH
          by (cases q) simp_all
      qed
    qed
  qed (use Cons in simp_all)
qed

lemma triggerEffects_same: "sameOutside s t \<Longrightarrow> sameOutside s (snd (triggerEffects t))"
  by (simp add: triggerEffects_def runEffects_same)

lemma useState_same: "sameOutside s t \<Longrightarrow> sameOutside s (snd (useState i t))"
  by (auto simp: useState_def movePointer_def writeCell_def
      split: option.splits memory_cell.splits initial_state.splits prod.splits sum.splits)

lemma useEffect_same: "sameOutside s t \<Longrightarrow> sameOutside s (snd (useEffect f d t))"
  by (auto simp: useEffect_def movePointer_def writeCell_def
      split: option.splits memory_cell.splits)

lemma useMemo_same: "sameOutside s t \<Longrightarrow> sameOutside s (snd (useMemo f d t))"
  by (auto simp: useMemo_def movePointer_def writeCell_def
      split: option.splits memory_cell.splits prod.splits sum.splits)

lemma runBody_same: "sameOutside s t \<Longrightarrow> sameOutside s (snd (runBody b t))"
proof (induction b arbitrary: t)
  case (UseState i k)
  obtain r t1 where u: "useState i t = (r, t1)" by (cases "useState i t")
  have t1: "sameOutside s t1" using useState_same [OF UseState.prems, of i] u by simp
  have "sameOutside s (snd (runBody (k a b) t1))" for a b
    by (rule UseState.IH) (auto simp: t1)
  then show ?case using u t1 by (auto split: sum.splits)
next
  case (UseEffect f d k)
  obtain r t1 where u: "useEffect f d t = (r, t1)" by (cases "useEffect f d t")
  have "sameOutside s t1" using useEffect_same [OF UseEffect.prems, of f d] u by simp
  then show ?case using u UseEffect.IH by (auto split: option.splits)
next
  case (UseMemo f d k)
  obtain r t1 where u: "useMemo f d t = (r, t1)" by (cases "useMemo f d t")
  have t1: "sameOutside s t1" using useMemo_same [OF UseMemo.prems, of f d] u by simp
  have "sameOutside s (snd (runBody (k a) t1))" for a
    by (rule UseMemo.IH) (auto simp: t1)
  then show ?case using u t1 by (auto split: sum.splits)
next
  case (CallSetState i ch k)
  have "sameOutside s (setState i ch t)"
    using CallSetState.prems setState_same sameOutside_trans by blast
  then show ?case using CallSetState.IH by simp
qed simp_all

lemma runBody_keeps: "sameOutside s (snd (runBody b s))"
  by (rule runBody_same) simp

lemma triggerEffects_keeps: "sameOutside s (snd (triggerEffects s))"
  by (rule triggerEffects_same) simp

lemma applyStateChanges_keeps: "sameOutside s (snd (applyStateChanges s))"
  by (rule applyStateChanges_same) simp

lemma resetHard_keeps: "sameOutside s (resetHard s)"
  by (rule resetHard_same) simp

lemma invokeAgent_conj:
  assumes "invokeAgent ag s = (r, t)"
  shows "events t = events s \<and> agentLog t = agentLog s @ [r] \<and> activeHost t = None \<and>
    args t = args s \<and> self t = self s"
proof (cases "args s")
  case None
  with assms show ?thesis by (auto simp: invokeAgent_def)
next
  case (Some x)
  obtain q u where rb: "runBody (ag x) (s\<lparr>activeHost := Some (self s)\<rparr>) = (q, u)"
    by (cases "runBody (ag x) (s\<lparr>activeHost := Some (self s)\<rparr>)")
  have "sameOutside (s\<lparr>activeHost := Some (self s)\<rparr>) u"
    using runBody_keeps [of "s\<lparr>activeHost := Some (self s)\<rparr>" "ag x"] rb by simp
  then have u: "events u = events s" "agentLog u = agentLog s" "args u = args s" "self u = self s"
    by (simp_all add: sameOutside_def)
  from assms Some rb have "r = q" "t = u\<lparr>activeHost := None, agentLog := agentLog u @ [q]\<rparr>"
    by (auto simp: invokeAgent_def)
  with u show ?thesis by simp
qed

lemma invokeAgent_facts:
  assumes "invokeAgent ag s = (r, t)"
  shows "events t = events s" "agentLog t = agentLog s @ [r]" "activeHost t = None"
    "args t = args s" "self t = self s"
  using invokeAgent_conj [OF assms] by simp_all

lemma emit_facts:
  assumes "emit li ev s = (r, t)"
  shows "events t = events s @ [ev]" "agentLog t = agentLog s" "activeHost t = activeHost s"
    "args t = args s" "self t = self s" "memoryCells t = memoryCells s" "r = li (events s) ev"
  using assms by (auto simp: emit_def)

lemma settle_same:
  assumes "applyStateChanges (resetSoft s) = (b, t)"
  shows "sameOutside s t"
  using assms applyStateChanges_same [of s "resetSoft s"] by (simp add: resetSoft_def sameOutside_def)

lemma resetHard_facts:
  "memoryCells (resetHard s) = []" "pointer (resetHard s) = 0"
  "events (resetHard s) = events s" "agentLog (resetHard s) = agentLog s"
  "activeHost (resetHard s) = activeHost s" "args (resetHard s) = args s"
  using resetHard_keeps [of s] by (simp_all add: resetHard_def sameOutside_def)

lemma catchError_ok:
  "catchError li a e s =
     (li (events s) (ErrorEvent e a), (resetHard s)\<lparr>events := events s @ [ErrorEvent e a]\<rparr>)"
  by (simp add: catchError_def emit_def resetHard_facts)

lemma catchError_facts:
  assumes "catchError li a e s = (r, t)"
  shows "activeHost t = activeHost s" "agentLog t = agentLog s" "args t = args s"
    "memoryCells t = []" "events t = events s @ [ErrorEvent e a]"
    "r = li (events s) (ErrorEvent e a)"
  using assms by (auto simp: catchError_ok resetHard_facts)

lemma catchError_events:
  assumes "catchError li a e s = (r, t)"
  shows "events t = events s @ [ErrorEvent e a]"
  using assms by (auto simp: catchError_ok)

section \<open>The trace of the render procedure\<close>

lemma accepts_append:
  "accepts li b (xs @ ys) = (accepts li b xs \<and> accepts li (b @ xs) ys)"
  by (induction xs arbitrary: b) auto

lemma accepts_last: "accepts li b (evs @ [ev]) \<Longrightarrow> li (b @ evs) ev = None"
  by (simp add: accepts_append)

lemma intermediates_append [simp]:
  "intermediates a (xs @ ys) = intermediates a xs @ intermediates a ys"
  by (simp add: intermediates_def)

lemma intermediates_simps [simp]:
  "intermediates a [] = []"
  "intermediates a (x # xs) = ValueEvent x a True # intermediates a xs"
  by (simp_all add: intermediates_def)

lemma intermediates_snoc:
  "vs \<noteq> [] \<Longrightarrow> intermediates a vs =
     intermediates a (butlast vs) @ [ValueEvent (last vs) a True]"
  by (induction vs) (auto simp: intermediates_def)

lemma list_all_intermediates [simp]:
  "list_all isAsync (intermediates a vs) = (vs = [] \<or> a)"
  "filter isErrorEvent (intermediates a vs) = []"
  by (induction vs) (auto simp: intermediates_def)

text \<open>
  What one pass leaves behind, and what the whole procedure leaves behind.
\<close>

lemma renderPass_Again:
  assumes "renderPass ag li a prev s = Again v t"
  shows "agentLog t = agentLog s @ [Inr v] \<and>
         events t = events s @ intermediates a (prior prev) \<and>
         accepts li (events s) (intermediates a (prior prev)) \<and> activeHost t = None \<and>
         args t = args s \<and> self t = self s"
proof -
  obtain r0 s1 where e0: "(case prev of None \<Rightarrow> (None, s)
      | Some p \<Rightarrow> emit li (ValueEvent p a True) s) = (r0, s1)"
    by (cases "(case prev of None \<Rightarrow> (None, s) | Some p \<Rightarrow> emit li (ValueEvent p a True) s)")
  have r0: "r0 = None" using assms e0 by (cases r0) (auto simp: renderPass_def)
  have s1: "events s1 = events s @ intermediates a (prior prev)" "agentLog s1 = agentLog s"
    "args s1 = args s" "self s1 = self s" "accepts li (events s) (intermediates a (prior prev))"
    using e0 r0 by (cases prev; auto simp: emit_def)+
  obtain q s2 where ia: "invokeAgent ag s1 = (q, s2)" by (cases "invokeAgent ag s1")
  have q: "q = Inr v" using assms e0 r0 ia
    by (cases q) (auto simp: renderPass_def split: prod.splits bool.splits option.splits)
  note s2 = invokeAgent_facts [OF ia]
  obtain b s3 where a1: "applyStateChanges (resetSoft s2) = (b, s3)"
    by (cases "applyStateChanges (resetSoft s2)")
  have s3: "sameOutside s2 s3" using settle_same [OF a1] .
  show ?thesis
  proof (cases b)
    case True
    then have "t = s3" using assms e0 r0 ia q a1 by (simp add: renderPass_def)
    then show ?thesis using s1 s2 s3 q by (simp add: sameOutside_def)
  next
    case False
    obtain r4 s4 where te: "triggerEffects s3 = (r4, s4)" by (cases "triggerEffects s3")
    have s4: "sameOutside s3 s4" using triggerEffects_keeps [of s3] te by simp
    obtain b5 s5 where a2: "applyStateChanges s4 = (b5, s5)" by (cases "applyStateChanges s4")
    have s5: "sameOutside s4 s5" using applyStateChanges_keeps [of s4] a2 by simp
    have "t = s5" using assms e0 r0 ia q a1 False te a2
      by (cases r4; cases b5) (auto simp: renderPass_def split: prod.splits)
    then show ?thesis using s1 s2 s3 s4 s5 q by (simp add: sameOutside_def)
  qed
qed

lemma renderPass_Stop:
  assumes "renderPass ag li a prev s = Stop r t"
  shows "stops li a s (prior prev) r t"
proof -
  obtain r0 s1 where e0: "(case prev of None \<Rightarrow> (None, s)
      | Some p \<Rightarrow> emit li (ValueEvent p a True) s) = (r0, s1)"
    by (cases "(case prev of None \<Rightarrow> (None, s) | Some p \<Rightarrow> emit li (ValueEvent p a True) s)")
  show ?thesis
  proof (cases r0)
    case (Some e)
    then obtain p where p: "prev = Some p" using e0 by (cases prev) auto
    have "t = s1" "r = Some e" using assms e0 Some by (auto simp: renderPass_def)
    moreover have "events s1 = events s @ [ValueEvent p a True]" "agentLog s1 = agentLog s"
      "li (events s) (ValueEvent p a True) = Some e"
      using e0 p Some by (auto simp: emit_def)
    ultimately have "agentLog t = agentLog s @ map Inr [] \<and> prior prev @ [] \<noteq> [] \<and>
        events t = events s @ intermediates a (prior prev @ []) \<and>
        accepts li (events s) (intermediates a (butlast (prior prev @ []))) \<and> r \<noteq> None \<and>
        r = li (events s @ intermediates a (butlast (prior prev @ [])))
              (ValueEvent (last (prior prev @ [])) a True)"
      using p by simp
    then show ?thesis unfolding stops_def by blast
  next
    case None
    have s1: "events s1 = events s @ intermediates a (prior prev)" "agentLog s1 = agentLog s"
      "accepts li (events s) (intermediates a (prior prev))"
      using e0 None by (cases prev; auto simp: emit_def)+
    obtain q s2 where ia: "invokeAgent ag s1 = (q, s2)" by (cases "invokeAgent ag s1")
    note s2 = invokeAgent_facts [OF ia]
    show ?thesis
    proof (cases q)
      case (Inl e)
      then have "t = s2" "r = Some e" using assms e0 None ia by (auto simp: renderPass_def)
      then have "r = Some e \<and> agentLog t = agentLog s @ map Inr [] @ [Inl e] \<and>
          events t = events s @ intermediates a (prior prev @ []) \<and>
          accepts li (events s) (intermediates a (prior prev @ []))"
        using s1 s2 Inl by simp
      then show ?thesis unfolding stops_def by blast
    next
      case (Inr v)
      obtain b s3 where a1: "applyStateChanges (resetSoft s2) = (b, s3)"
        by (cases "applyStateChanges (resetSoft s2)")
      have s3: "sameOutside s2 s3" using settle_same [OF a1] .
      have b: "\<not> b" using assms e0 None ia Inr a1 by (cases b) (auto simp: renderPass_def)
      obtain r4 s4 where te: "triggerEffects s3 = (r4, s4)" by (cases "triggerEffects s3")
      have s4: "sameOutside s3 s4" using triggerEffects_keeps [of s3] te by simp
      have log4: "agentLog s4 = agentLog s @ map Inr ([] @ [v])"
        and ev4: "events s4 = events s @ intermediates a (prior prev @ [])"
        using s1 s2 s3 s4 Inr by (simp_all add: sameOutside_def)
      show ?thesis
      proof (cases r4)
        case (Some e)
        then have "t = s4" "r = Some e" using assms e0 None ia Inr a1 b te
          by (auto simp: renderPass_def)
        then have "r = Some e \<and> agentLog t = agentLog s @ map Inr ([] @ [v]) \<and>
            events t = events s @ intermediates a (prior prev @ []) \<and>
            accepts li (events s) (intermediates a (prior prev @ []))"
          using log4 ev4 s1 by simp
        then show ?thesis unfolding stops_def by blast
      next
        case None4: None
        obtain b5 s5 where a2: "applyStateChanges s4 = (b5, s5)" by (cases "applyStateChanges s4")
        have s5: "sameOutside s4 s5" using applyStateChanges_keeps [of s4] a2 by simp
        have b5: "\<not> b5" using assms e0 None ia Inr a1 b te None4 a2
          by (cases b5) (auto simp: renderPass_def)
        have "emit li (ValueEvent v a False) s5 = (r, t)"
          using assms e0 None ia Inr a1 b te None4 a2 b5
          by (auto simp: renderPass_def split: prod.splits)
        then have "agentLog t = agentLog s @ map Inr ([] @ [v]) \<and>
            events t = events s @ intermediates a (prior prev @ []) @ [ValueEvent v a False] \<and>
            accepts li (events s) (intermediates a (prior prev @ [])) \<and>
            r = li (events s @ intermediates a (prior prev @ [])) (ValueEvent v a False)"
          using log4 ev4 s1 s5 by (auto simp: emit_def sameOutside_def)
        then show ?thesis unfolding stops_def by blast
      qed
    qed
  qed
qed

lemma stops_prepend:
  assumes log: "agentLog s1 = agentLog s @ [Inr v]"
    and ev: "events s1 = events s @ intermediates a pre"
    and acc: "accepts li (events s) (intermediates a pre)"
    and st: "stops li a s1 [v] r t"
  shows "stops li a s pre r t"
proof -
  have bl: "butlast (pre @ v # vs) = pre @ butlast (v # vs)" for vs
    by (simp add: butlast_append)
  from st consider
    (listener) vs where "agentLog t = agentLog s1 @ map Inr vs" "[v] @ vs \<noteq> []"
        "events t = events s1 @ intermediates a ([v] @ vs)"
        "accepts li (events s1) (intermediates a (butlast ([v] @ vs)))" "r \<noteq> None"
        "r = li (events s1 @ intermediates a (butlast ([v] @ vs)))
              (ValueEvent (last ([v] @ vs)) a True)"
  | (agent) vs e where "r = Some e" "agentLog t = agentLog s1 @ map Inr vs @ [Inl e]"
        "events t = events s1 @ intermediates a ([v] @ vs)"
        "accepts li (events s1) (intermediates a ([v] @ vs))"
  | (effects) vs w e where "r = Some e" "agentLog t = agentLog s1 @ map Inr (vs @ [w])"
        "events t = events s1 @ intermediates a ([v] @ vs)"
        "accepts li (events s1) (intermediates a ([v] @ vs))"
  | (final) vs w where "agentLog t = agentLog s1 @ map Inr (vs @ [w])"
        "events t = events s1 @ intermediates a ([v] @ vs) @ [ValueEvent w a False]"
        "accepts li (events s1) (intermediates a ([v] @ vs))"
        "r = li (events s1 @ intermediates a ([v] @ vs)) (ValueEvent w a False)"
    unfolding stops_def by blast
  then show ?thesis
  proof cases
    case listener
    have "agentLog t = agentLog s @ map Inr (v # vs) \<and> pre @ (v # vs) \<noteq> [] \<and>
        events t = events s @ intermediates a (pre @ (v # vs)) \<and>
        accepts li (events s) (intermediates a (butlast (pre @ (v # vs)))) \<and> r \<noteq> None \<and>
        r = li (events s @ intermediates a (butlast (pre @ (v # vs))))
              (ValueEvent (last (pre @ (v # vs))) a True)"
      using listener log ev acc by (simp add: bl accepts_append del: butlast.simps)
    then show ?thesis unfolding stops_def by blast
  next
    case agent
    have "r = Some e \<and> agentLog t = agentLog s @ map Inr (v # vs) @ [Inl e] \<and>
        events t = events s @ intermediates a (pre @ (v # vs)) \<and>
        accepts li (events s) (intermediates a (pre @ (v # vs)))"
      using agent log ev acc by (simp add: accepts_append)
    then show ?thesis unfolding stops_def by blast
  next
    case effects
    have "r = Some e \<and> agentLog t = agentLog s @ map Inr ((v # vs) @ [w]) \<and>
        events t = events s @ intermediates a (pre @ (v # vs)) \<and>
        accepts li (events s) (intermediates a (pre @ (v # vs)))"
      using effects log ev acc by (simp add: accepts_append)
    then show ?thesis unfolding stops_def by blast
  next
    case final
    have "agentLog t = agentLog s @ map Inr ((v # vs) @ [w]) \<and>
        events t = events s @ intermediates a (pre @ (v # vs)) @ [ValueEvent w a False] \<and>
        accepts li (events s) (intermediates a (pre @ (v # vs))) \<and>
        r = li (events s @ intermediates a (pre @ (v # vs))) (ValueEvent w a False)"
      using final log ev acc by (simp add: accepts_append)
    then show ?thesis unfolding stops_def by blast
  qed
qed

lemma renderLoop_stops:
  "renderLoop n ag li a prev s = Some (r, t) \<Longrightarrow> stops li a s (prior prev) r t"
proof (induction n arbitrary: prev s)
  case 0
  then show ?case by simp
next
  case (Suc n)
  show ?case
  proof (cases "renderPass ag li a prev s")
    case (Stop r1 s1)
    then have "r1 = r" "s1 = t" using Suc.prems by simp_all
    then show ?thesis using renderPass_Stop Stop by metis
  next
    case (Again v s1)
    then have "renderLoop n ag li a (Some v) s1 = Some (r, t)" using Suc.prems by simp
    then have st: "stops li a s1 [v] r t" using Suc.IH [of "Some v" s1] by simp
    have ag: "agentLog s1 = agentLog s @ [Inr v]"
      "events s1 = events s @ intermediates a (prior prev)"
      "accepts li (events s) (intermediates a (prior prev))"
      using renderPass_Again [OF Again] by simp_all
    show ?thesis by (rule stops_prepend [OF ag st])
  qed
qed

lemma renderInner_stops:
  "renderInner fuel ag li a s = Some (r, t) \<Longrightarrow> stops li a s [] r t"
  using renderLoop_stops [of fuel ag li a None s r t] by (simp add: renderInner_def)

lemma stops_cases:
  assumes "stops li a s [] r t"
  obtains
    (listener) vs where "agentLog t = agentLog s @ map Inr vs" "vs \<noteq> []"
        "events t = events s @ intermediates a (butlast vs) @ [ValueEvent (last vs) a True]"
        "accepts li (events s) (intermediates a (butlast vs))" "r \<noteq> None"
        "r = li (events s @ intermediates a (butlast vs)) (ValueEvent (last vs) a True)"
  | (agent) vs e where "r = Some e" "agentLog t = agentLog s @ map Inr vs @ [Inl e]"
        "events t = events s @ intermediates a vs"
        "accepts li (events s) (intermediates a vs)"
  | (effects) vs w e where "r = Some e" "agentLog t = agentLog s @ map Inr (vs @ [w])"
        "events t = events s @ intermediates a vs"
        "accepts li (events s) (intermediates a vs)"
  | (final) vs w where "agentLog t = agentLog s @ map Inr (vs @ [w])"
        "events t = events s @ intermediates a vs @ [ValueEvent w a False]"
        "accepts li (events s) (intermediates a vs)"
        "r = li (events s @ intermediates a vs) (ValueEvent w a False)"
proof -
  from assms consider
    (l) vs where "agentLog t = agentLog s @ map Inr vs" "vs \<noteq> []"
        "events t = events s @ intermediates a vs"
        "accepts li (events s) (intermediates a (butlast vs))" "r \<noteq> None"
        "r = li (events s @ intermediates a (butlast vs)) (ValueEvent (last vs) a True)"
  | (a) vs e where "r = Some e" "agentLog t = agentLog s @ map Inr vs @ [Inl e]"
        "events t = events s @ intermediates a vs"
        "accepts li (events s) (intermediates a vs)"
  | (e) vs w e where "r = Some e" "agentLog t = agentLog s @ map Inr (vs @ [w])"
        "events t = events s @ intermediates a vs"
        "accepts li (events s) (intermediates a vs)"
  | (f) vs w where "agentLog t = agentLog s @ map Inr (vs @ [w])"
        "events t = events s @ intermediates a vs @ [ValueEvent w a False]"
        "accepts li (events s) (intermediates a vs)"
        "r = li (events s @ intermediates a vs) (ValueEvent w a False)"
    unfolding stops_def by auto
  then show thesis
  proof cases
    case l
    then show ?thesis using listener [of vs] intermediates_snoc [of vs a] by simp
  next
    case a
    then show ?thesis using agent by blast
  next
    case e
    then show ?thesis using effects by blast
  next
    case f
    then show ?thesis using final by blast
  qed
qed

lemma stops_events:
  assumes "stops li a s [] r t"
  shows "\<exists>new. events t = events s @ new \<and> (a \<longrightarrow> list_all isAsync new) \<and>
    filter isErrorEvent new = []"
  using assms by (cases rule: stops_cases) auto

lemma log_agent:
  "map Inr vs' @ [Inl e'] = map Inr vs @ [Inl e] \<Longrightarrow> vs' = vs \<and> e' = e"
  by (simp add: inj_map_eq_map)

lemma log_returns: "map Inr vs' \<noteq> map Inr vs @ [Inl e]"
proof
  assume "map Inr vs' = map Inr vs @ [Inl e]"
  then have "Inl e \<in> set (map Inr vs')" by simp
  then show False by auto
qed

lemma stops_values:
  assumes "stops li a s [] r t"
  shows "\<exists>vs. (\<exists>v. agentLog t = agentLog s @ map Inr (vs @ [v]) \<and>
            events t = events s @ intermediates a vs @ [ValueEvent v a False] \<and>
            r = li (events s @ intermediates a vs) (ValueEvent v a False))
       \<or> (r \<noteq> None \<and> events t = events s @ intermediates a vs \<and>
            (\<exists>rest. agentLog t = agentLog s @ map Inr vs @ rest \<and> length rest \<le> 1))"
  using assms
proof (cases rule: stops_cases)
  case (listener vs)
  have "events t = events s @ intermediates a vs"
    using listener(2,3) intermediates_snoc [of vs a] by simp
  then have "r \<noteq> None \<and> events t = events s @ intermediates a vs \<and>
      (\<exists>rest. agentLog t = agentLog s @ map Inr vs @ rest \<and> length rest \<le> 1)"
    using listener by simp
  then show ?thesis by blast
next
  case (agent vs e)
  then have "r \<noteq> None \<and> events t = events s @ intermediates a vs \<and>
      (\<exists>rest. agentLog t = agentLog s @ map Inr vs @ rest \<and> length rest \<le> 1)"
    by simp
  then show ?thesis by blast
next
  case (effects vs w e)
  then have "agentLog t = agentLog s @ map Inr vs @ [Inr w]" by simp
  then have "r \<noteq> None \<and> events t = events s @ intermediates a vs \<and>
      (\<exists>rest. agentLog t = agentLog s @ map Inr vs @ rest \<and> length rest \<le> 1)"
    using effects by (metis length_Cons list.size(3) One_nat_def le_refl option.distinct(1))
  then show ?thesis by blast
next
  case (final vs w)
  then show ?thesis by blast
qed

section \<open>The active Host\<close>

lemma renderPass_active:
  assumes "renderPass ag li a prev s = Stop r t" "prev = None \<or> activeHost s = None"
  shows "activeHost t = None"
proof -
  obtain r0 s1 where e0: "(case prev of None \<Rightarrow> (None, s)
      | Some p \<Rightarrow> emit li (ValueEvent p a True) s) = (r0, s1)"
    by (cases "(case prev of None \<Rightarrow> (None, s) | Some p \<Rightarrow> emit li (ValueEvent p a True) s)")
  show ?thesis
  proof (cases r0)
    case (Some e)
    then have "t = s1" "prev \<noteq> None" "activeHost s1 = activeHost s"
      using assms(1) e0 by (cases prev; auto simp: renderPass_def emit_def)+
    then show ?thesis using assms(2) by auto
  next
    case None
    obtain q s2 where ia: "invokeAgent ag s1 = (q, s2)" by (cases "invokeAgent ag s1")
    note s2 = invokeAgent_facts [OF ia]
    show ?thesis
    proof (cases q)
      case (Inl e)
      then show ?thesis using assms(1) e0 None ia s2 by (auto simp: renderPass_def)
    next
      case (Inr v)
      obtain b s3 where a1: "applyStateChanges (resetSoft s2) = (b, s3)"
        by (cases "applyStateChanges (resetSoft s2)")
      have s3: "sameOutside s2 s3" using settle_same [OF a1] .
      have b: "\<not> b" using assms(1) e0 None ia Inr a1 by (cases b) (auto simp: renderPass_def)
      obtain r4 s4 where te: "triggerEffects s3 = (r4, s4)" by (cases "triggerEffects s3")
      have s4: "sameOutside s3 s4" using triggerEffects_keeps [of s3] te by simp
      have a4: "activeHost s4 = None" using s2 s3 s4 by (simp add: sameOutside_def)
      show ?thesis
      proof (cases r4)
        case (Some e)
        then show ?thesis using assms(1) e0 None ia Inr a1 b te a4 by (auto simp: renderPass_def)
      next
        case None4: None
        obtain b5 s5 where a2: "applyStateChanges s4 = (b5, s5)" by (cases "applyStateChanges s4")
        have s5: "sameOutside s4 s5" using applyStateChanges_keeps [of s4] a2 by simp
        have b5: "\<not> b5" using assms(1) e0 None ia Inr a1 b te None4 a2
          by (cases b5) (auto simp: renderPass_def)
        have "emit li (ValueEvent v a False) s5 = (r, t)"
          using assms(1) e0 None ia Inr a1 b te None4 a2 b5
          by (auto simp: renderPass_def split: prod.splits)
        then show ?thesis using a4 s5 by (auto simp: emit_def sameOutside_def)
      qed
    qed
  qed
qed

lemma renderLoop_active:
  "renderLoop n ag li a prev s = Some (r, t) \<Longrightarrow> prev = None \<or> activeHost s = None
   \<Longrightarrow> activeHost t = None"
proof (induction n arbitrary: prev s)
  case 0
  then show ?case by simp
next
  case (Suc n)
  show ?case
  proof (cases "renderPass ag li a prev s")
    case (Stop r1 s1)
    then have "r1 = r" "s1 = t" using Suc.prems by simp_all
    then show ?thesis using renderPass_active Stop Suc.prems(2) by metis
  next
    case (Again v s1)
    then have "renderLoop n ag li a (Some v) s1 = Some (r, t)" using Suc.prems by simp
    moreover have "activeHost s1 = None" using renderPass_Again [OF Again] by simp
    ultimately show ?thesis using Suc.IH by blast
  qed
qed

lemma render_active:
  assumes "render fuel ag li x s = Some (r, t)"
  shows "activeHost t = None"
proof -
  obtain r1 s1 where inner: "renderInner fuel ag li False (s\<lparr>args := Some x\<rparr>) = Some (r1, s1)"
    using assms by (auto simp: render_def split: option.splits)
  have s1: "activeHost s1 = None"
    using renderLoop_active [of fuel ag li False None _ r1 s1] inner by (simp add: renderInner_def)
  show ?thesis
  proof (cases r1)
    case None
    then show ?thesis using assms inner s1 by (simp add: render_def)
  next
    case (Some e)
    then have "catchError li False e s1 = (r, t)" using assms inner by (simp add: render_def)
    then show ?thesis using catchError_facts(1) s1 by metis
  qed
qed


section \<open>Setter calls and the active Host\<close>

lemma useState_microtasks: "microtasks (snd (useState i s)) = microtasks s"
  by (auto simp: useState_def movePointer_def writeCell_def
      split: option.splits memory_cell.splits initial_state.splits prod.splits sum.splits)

lemma useEffect_microtasks: "microtasks (snd (useEffect f d s)) = microtasks s"
  by (auto simp: useEffect_def movePointer_def writeCell_def
      split: option.splits memory_cell.splits)

lemma useMemo_microtasks: "microtasks (snd (useMemo f d s)) = microtasks s"
  by (auto simp: useMemo_def movePointer_def writeCell_def
      split: option.splits memory_cell.splits prod.splits sum.splits)

lemma runBody_microtasks:
  "activeHost s = Some (self s) \<Longrightarrow> microtasks (snd (runBody b s)) = microtasks s"
proof (induction b arbitrary: s)
  case (UseState i k)
  obtain r t1 where u: "useState i s = (r, t1)" by (cases "useState i s")
  have same: "sameOutside s t1" using useState_same [of s s i] u by simp
  have m: "microtasks t1 = microtasks s" using useState_microtasks [of i s] u by simp
  have a: "activeHost t1 = Some (self t1)" using same UseState.prems by (simp add: sameOutside_def)
  have "microtasks (snd (runBody (k x y) t1)) = microtasks t1" for x y
    by (rule UseState.IH) (auto simp: a)
  then show ?case using u m by (auto split: sum.splits)
next
  case (UseEffect f d k)
  obtain r t1 where u: "useEffect f d s = (r, t1)" by (cases "useEffect f d s")
  have same: "sameOutside s t1" using useEffect_same [of s s f d] u by simp
  have m: "microtasks t1 = microtasks s" using useEffect_microtasks [of f d s] u by simp
  have a: "activeHost t1 = Some (self t1)" using same UseEffect.prems by (simp add: sameOutside_def)
  show ?case using u m UseEffect.IH [OF a] by (auto split: option.splits)
next
  case (UseMemo f d k)
  obtain r t1 where u: "useMemo f d s = (r, t1)" by (cases "useMemo f d s")
  have same: "sameOutside s t1" using useMemo_same [of s s f d] u by simp
  have m: "microtasks t1 = microtasks s" using useMemo_microtasks [of f d s] u by simp
  have a: "activeHost t1 = Some (self t1)" using same UseMemo.prems by (simp add: sameOutside_def)
  have "microtasks (snd (runBody (k x) t1)) = microtasks t1" for x
    by (rule UseMemo.IH) (auto simp: a)
  then show ?case using u m by (auto split: sum.splits)
next
  case (CallSetState i ch k)
  have a: "activeHost (setState i ch s) = Some (self (setState i ch s))"
    "microtasks (setState i ch s) = microtasks s"
    using CallSetState.prems by (simp_all add: setState_def)
  show ?case using CallSetState.IH [OF a(1)] a(2) by simp
qed simp_all

lemma invokeAgent_microtasks: "microtasks (snd (invokeAgent ag s)) = microtasks s"
proof (cases "args s")
  case None
  then show ?thesis by (simp add: invokeAgent_def)
next
  case (Some x)
  have "microtasks (snd (runBody (ag x) (s\<lparr>activeHost := Some (self s)\<rparr>))) = microtasks s"
    using runBody_microtasks [of "s\<lparr>activeHost := Some (self s)\<rparr>" "ag x"] by simp
  then show ?thesis using Some by (auto simp: invokeAgent_def split: prod.splits)
qed


lemma setStates_microtasks:
  "activeHost s \<noteq> Some (self s) \<Longrightarrow> microtasks (setStates cs s) = microtasks s + length cs"
proof (induction cs arbitrary: s)
  case Nil
  then show ?case by simp
next
  case (Cons c cs)
  obtain i ch where c: "c = (i, ch)" by (cases c)
  have a: "activeHost (setState i ch s) \<noteq> Some (self (setState i ch s))"
    "microtasks (setState i ch s) = microtasks s + 1"
    using Cons.prems by (simp_all add: setState_def)
  show ?case using Cons.IH [OF a(1)] a(2) c by simp
qed

lemma settle_active:
  assumes "invokeAgent ag s = (q, s2)"
  shows "activeHost (snd (applyStateChanges (resetSoft s2))) = None"
  using invokeAgent_facts(3) [OF assms] by (simp add: applyStateChanges_def resetSoft_def)

section \<open>Drained queues\<close>

lemma applyCell_drained [simp]: "drainedCell (applyCell c)"
  by (cases c) simp_all

lemma applyStateChanges_drained: "drained (snd (applyStateChanges s))"
  by (simp add: drained_def applyStateChanges_def list_all_iff)

lemma applyCell_id: "drainedCell c \<Longrightarrow> applyCell c = c"
  by (cases c) simp_all

lemma cellChanges_drained: "drainedCell c \<Longrightarrow> \<not> cellChanges c"
  by (cases c) simp_all

lemma drained_applyStateChanges:
  assumes "drained s"
  shows "applyStateChanges s = (False, s)"
proof -
  have "map applyCell (memoryCells s) = memoryCells s"
    using assms by (simp add: drained_def list_all_iff applyCell_id map_idI)
  moreover have "\<not> list_ex cellChanges (memoryCells s)"
    using assms by (auto simp: drained_def list_all_iff list_ex_iff cellChanges_drained)
  ultimately show ?thesis by (simp add: applyStateChanges_def)
qed

lemma renderPass_drained:
  assumes "renderPass ag li a prev s = Stop None t"
  shows "drained t"
proof -
  obtain r0 s1 where e0: "(case prev of None \<Rightarrow> (None, s)
      | Some p \<Rightarrow> emit li (ValueEvent p a True) s) = (r0, s1)"
    by (cases "(case prev of None \<Rightarrow> (None, s) | Some p \<Rightarrow> emit li (ValueEvent p a True) s)")
  have r0: "r0 = None" using assms e0 by (cases r0) (auto simp: renderPass_def)
  obtain q s2 where ia: "invokeAgent ag s1 = (q, s2)" by (cases "invokeAgent ag s1")
  obtain v where q: "q = Inr v" using assms e0 r0 ia by (cases q) (auto simp: renderPass_def)
  obtain b s3 where a1: "applyStateChanges (resetSoft s2) = (b, s3)"
    by (cases "applyStateChanges (resetSoft s2)")
  have b: "\<not> b" using assms e0 r0 ia q a1 by (cases b) (auto simp: renderPass_def)
  obtain r4 s4 where te: "triggerEffects s3 = (r4, s4)" by (cases "triggerEffects s3")
  have r4: "r4 = None" using assms e0 r0 ia q a1 b te by (cases r4) (auto simp: renderPass_def)
  obtain b5 s5 where a2: "applyStateChanges s4 = (b5, s5)" by (cases "applyStateChanges s4")
  have b5: "\<not> b5" using assms e0 r0 ia q a1 b te r4 a2 by (cases b5) (auto simp: renderPass_def)
  have "emit li (ValueEvent v a False) s5 = (None, t)"
    using assms e0 r0 ia q a1 b te r4 a2 b5 by (auto simp: renderPass_def split: prod.splits)
  then have "memoryCells t = memoryCells s5" by (auto simp: emit_def)
  moreover have "drained s5" using applyStateChanges_drained [of s4] a2 by simp
  ultimately show ?thesis by (simp add: drained_def)
qed

lemma renderLoop_drained:
  "renderLoop n ag li a prev s = Some (None, t) \<Longrightarrow> drained t"
proof (induction n arbitrary: prev s)
  case 0
  then show ?case by simp
next
  case (Suc n)
  show ?case
  proof (cases "renderPass ag li a prev s")
    case (Stop r1 s1)
    then have "r1 = None" "s1 = t" using Suc.prems by simp_all
    then show ?thesis using renderPass_drained Stop by metis
  next
    case (Again v s1)
    then have "renderLoop n ag li a (Some v) s1 = Some (None, t)" using Suc.prems by simp
    then show ?thesis by (rule Suc.IH)
  qed
qed

lemma catchError_drained:
  assumes "catchError li a e s = (r, t)"
  shows "drained t"
  using catchError_facts(4) [OF assms] by (simp add: drained_def)

lemma renderAsync_drained:
  assumes "renderAsync fuel ag li s = Some (None, t)"
  shows "drained t"
proof -
  obtain b s0 where ap: "applyStateChanges s = (b, s0)" by (cases "applyStateChanges s")
  have s0: "drained s0" using applyStateChanges_drained [of s] ap by simp
  show ?thesis
  proof (cases b)
    case False
    then show ?thesis using assms ap s0 by (simp add: renderAsync_def)
  next
    case True
    then obtain r1 s1 where inner: "renderInner fuel ag li True s0 = Some (r1, s1)"
      using assms ap by (auto simp: renderAsync_def split: option.splits)
    show ?thesis
    proof (cases r1)
      case None
      then have "t = s1" using assms ap True inner by (simp add: renderAsync_def)
      then show ?thesis using renderLoop_drained [of fuel ag li True None s0 s1] inner None
        by (simp add: renderInner_def)
    next
      case (Some e)
      then have "catchError li True e s1 = (None, t)"
        using assms ap True inner by (simp add: renderAsync_def)
      then show ?thesis by (rule catchError_drained)
    qed
  qed
qed

section \<open>Agents that use no state\<close>

lemma enqueue_other: "\<not> isStateCell c \<Longrightarrow> enqueue i ch c = c"
  by (cases c) simp_all

lemma setState_noState:
  assumes "noStateCells s"
  shows "memoryCells (setState i ch s) = memoryCells s"
proof -
  have "map (enqueue i ch) (memoryCells s) = memoryCells s"
    using assms by (auto simp: noStateCells_def list_ex_iff enqueue_other intro: map_idI)
  then show ?thesis by (simp add: setState_def)
qed

lemma setStates_noState: "noStateCells s \<Longrightarrow> memoryCells (setStates cs s) = memoryCells s"
proof (induction cs arbitrary: s)
  case Nil
  then show ?case by simp
next
  case (Cons c cs)
  obtain i ch where c: "c = (i, ch)" by (cases c)
  have m: "memoryCells (setState i ch s) = memoryCells s" using Cons.prems by (rule setState_noState)
  then have "noStateCells (setState i ch s)" using Cons.prems by (simp add: noStateCells_def)
  then show ?case using Cons.IH c m by simp
qed

lemma runDispose_noState:
  "noStateCells s \<Longrightarrow> memoryCells (snd (runDispose d s)) = memoryCells s"
proof (cases d)
  case (Dispose f)
  assume n: "noStateCells s"
  obtain r cs w where f: "f (world s) = (r, cs, w)" by (cases "f (world s)")
  have "noStateCells (s\<lparr>world := w\<rparr>)" using n by (simp add: noStateCells_def)
  then show ?thesis using setStates_noState [of "s\<lparr>world := w\<rparr>" cs] Dispose f by simp
qed

lemma runEffect_noState:
  "noStateCells s \<Longrightarrow> memoryCells (snd (runEffect e s)) = memoryCells s"
proof (cases e)
  case (Effect f)
  assume n: "noStateCells s"
  obtain r cs w where f: "f (world s) = (r, cs, w)" by (cases "f (world s)")
  have "noStateCells (s\<lparr>world := w\<rparr>)" using n by (simp add: noStateCells_def)
  then show ?thesis using setStates_noState [of "s\<lparr>world := w\<rparr>" cs] Effect f by simp
qed

lemma noStateCells_update:
  "noStateCells s \<Longrightarrow> \<not> isStateCell c \<Longrightarrow>
     noStateCells (s\<lparr>memoryCells := (memoryCells s)[i := c]\<rparr>)"
  by (auto simp: noStateCells_def list_ex_iff dest!: set_update_subset_insert [THEN subsetD])

lemma noStateCells_cong: "memoryCells t = memoryCells s \<Longrightarrow> noStateCells t = noStateCells s"
  by (simp add: noStateCells_def)

lemma invokeCleanup_noState:
  assumes "noStateCells s"
  shows "noStateCells (snd (invokeCleanup i c s))"
proof (cases "dispose c")
  case None
  then show ?thesis using assms by (simp add: invokeCleanup_def)
next
  case (Some d)
  obtain r s1 where rd: "runDispose d s = (r, s1)" by (cases "runDispose d s")
  have s1: "noStateCells s1"
    using runDispose_noState [OF assms, of d] rd assms noStateCells_cong by fastforce
  have "noStateCells (s1\<lparr>memoryCells := (memoryCells s1)[i := EffectCell (c\<lparr>dispose := None\<rparr>)]\<rparr>)"
    using s1 by (rule noStateCells_update) simp
  then show ?thesis using Some rd by (simp add: invokeCleanup_def)
qed

lemma resetHard_noState: "noStateCells (resetHard s)"
  by (simp add: noStateCells_def resetHard_facts)

lemma runEffects_noState: "noStateCells s \<Longrightarrow> noStateCells (snd (runEffects is s))"
proof (induction "is" arbitrary: s)
  case Nil
  then show ?case by simp
next
  case (Cons i "is")
  show ?case
  proof (cases "memoryCells s ! i")
    case (EffectCell c)
    show ?thesis
    proof (cases "outdated c")
      case False
      then show ?thesis using EffectCell Cons by simp
    next
      case True
      obtain r s1 where rd: "invokeCleanup i c s = (r, s1)" by (cases "invokeCleanup i c s")
      have s1: "noStateCells s1" using invokeCleanup_noState [OF Cons.prems, of i c] rd by simp
      show ?thesis
      proof (cases r)
        case (Some e)
        then show ?thesis using EffectCell True rd s1 by simp
      next
        case None
        obtain q s2 where re: "runEffect (effect c) s1 = (q, s2)" by (cases "runEffect (effect c) s1")
        have s2: "noStateCells s2"
          using runEffect_noState [OF s1, of "effect c"] re s1 noStateCells_cong by fastforce
        show ?thesis
        proof (cases q)
          case (Inl e)
          then show ?thesis using EffectCell True rd None re s2 by simp
        next
          case (Inr d)
          have "noStateCells (s2\<lparr>memoryCells := (memoryCells s2)[i :=
              EffectCell (c\<lparr>dispose := d, outdated := False\<rparr>)]\<rparr>)"
            using s2 by (rule noStateCells_update) simp
          then show ?thesis using EffectCell True rd None re Inr Cons.IH by simp
        qed
      qed
    qed
  qed (use Cons in simp_all)
qed

lemma triggerEffects_noState: "noStateCells s \<Longrightarrow> noStateCells (snd (triggerEffects s))"
  by (simp add: triggerEffects_def runEffects_noState)

lemma noState_drained: "noStateCells s \<Longrightarrow> drained s"
proof -
  assume "noStateCells s"
  then have "\<forall>c \<in> set (memoryCells s). \<not> isStateCell c"
    by (simp add: noStateCells_def list_ex_iff)
  moreover have "\<not> isStateCell c \<Longrightarrow> drainedCell c" for c :: "('b, 'c) memory_cell"
    by (cases c) simp_all
  ultimately show "drained s" by (auto simp: drained_def list_all_iff)
qed

lemma noStateCells_write:
  "noStateCells s \<Longrightarrow> \<not> isStateCell c \<Longrightarrow> noStateCells (writeCell c s)"
  by (auto simp: writeCell_def noStateCells_def list_ex_iff
      dest!: set_update_subset_insert [THEN subsetD])

lemma useEffect_noState: "noStateCells s \<Longrightarrow> noStateCells (snd (useEffect f d s))"
proof -
  assume n: "noStateCells s"
  have w: "noStateCells (writeCell (EffectCell c) s)" for c
    using n by (rule noStateCells_write) simp
  have u: "noStateCells (s\<lparr>memoryCells := (memoryCells s)[pointer s := EffectCell c]\<rparr>)" for c
    using n by (rule noStateCells_update) simp
  show ?thesis
    using n w u
    by (auto simp: useEffect_def movePointer_def noStateCells_def
        split: option.splits memory_cell.splits)
qed

lemma useMemo_noState: "noStateCells s \<Longrightarrow> noStateCells (snd (useMemo f d s))"
proof -
  assume n: "noStateCells s"
  have w: "noStateCells (writeCell (MemoCell c) (s\<lparr>world := x\<rparr>))" for c x
    by (rule noStateCells_write) (use n in \<open>simp_all add: noStateCells_def\<close>)
  have u: "noStateCells (s\<lparr>memoryCells := (memoryCells s)[pointer s := MemoCell c]\<rparr>)" for c
    using n by (rule noStateCells_update) simp
  show ?thesis
    using n w u
    by (auto simp: useMemo_def movePointer_def noStateCells_def
        split: option.splits memory_cell.splits prod.splits sum.splits)
qed

lemma runBody_noState:
  "noStateCells s \<Longrightarrow> noStateCells (snd (runBody (withoutState b) s))"
proof (induction b arbitrary: s)
  case (PlainEffect f d k)
  obtain r s1 where u: "useEffect f d s = (r, s1)" by (cases "useEffect f d s")
  have s1: "noStateCells s1" using useEffect_noState [OF PlainEffect.prems, of f d] u by simp
  then show ?case using u PlainEffect.IH by (auto split: option.splits)
next
  case (PlainMemo f d k)
  obtain r s1 where u: "useMemo f d s = (r, s1)" by (cases "useMemo f d s")
  have s1: "noStateCells s1" using useMemo_noState [OF PlainMemo.prems, of f d] u by simp
  have "noStateCells (snd (runBody (withoutState (k a)) s1))" for a
    by (rule PlainMemo.IH) (use s1 in auto)
  then show ?case using u s1 by (auto split: sum.splits)
next
  case (PlainSetState i ch k)
  have "noStateCells (setState i ch s)"
    using setState_noState [OF PlainSetState.prems, of i ch] PlainSetState.prems
      noStateCells_cong by blast
  then show ?case using PlainSetState.IH by simp
qed simp_all

lemma invokeAgent_noState:
  assumes "noStateCells s"
  shows "noStateCells (snd (invokeAgent (\<lambda>a. withoutState (body a)) s))"
proof (cases "args s")
  case None
  then show ?thesis using assms by (simp add: invokeAgent_def noStateCells_def)
next
  case (Some x)
  have "noStateCells (s\<lparr>activeHost := Some (self s)\<rparr>)" using assms by (simp add: noStateCells_def)
  then have "noStateCells (snd (runBody (withoutState (body x)) (s\<lparr>activeHost := Some (self s)\<rparr>)))"
    by (rule runBody_noState)
  then show ?thesis using Some by (auto simp: invokeAgent_def noStateCells_def split: prod.splits)
qed

lemma noState_settled:
  assumes "noStateCells s"
  shows "applyStateChanges s = (False, s)"
  using assms by (simp add: drained_applyStateChanges noState_drained)

lemma render_stateless:
  assumes n: "noStateCells s" and ag: "ag = (\<lambda>a. withoutState (body a))"
  shows "\<exists>r t. render (Suc k) ag li a s = Some (r, t) \<and> noStateCells t \<and>
     (\<forall>v s1 s2. invokeAgent ag (s\<lparr>args := Some a\<rparr>) = (Inr v, s1) \<and>
        triggerEffects (snd (applyStateChanges (resetSoft s1))) = (None, s2) \<longrightarrow>
        agentLog t = agentLog s @ [Inr v] \<and>
        (\<exists>new. events t = events s @ new \<and>
           filter isValueEvent new = [ValueEvent v False False]))"
proof -
  let ?s0 = "s\<lparr>args := Some a\<rparr>"
  have n0: "noStateCells ?s0" using n by (simp add: noStateCells_def)
  obtain q s1 where ia: "invokeAgent ag ?s0 = (q, s1)" by (cases "invokeAgent ag ?s0")
  have n1: "noStateCells s1" using invokeAgent_noState [OF n0, of body] ia ag by simp
  note f1 = invokeAgent_facts [OF ia]
  have catch: "\<exists>r t. catchError li False e u = (r, t) \<and> noStateCells t"
    if "noStateCells u" for e u
    by (simp add: catchError_ok noStateCells_def resetHard_facts)
  show ?thesis
  proof (cases q)
    case (Inl e)
    then have "renderPass ag li False None ?s0 = Stop (Some e) s1"
      using ia by (simp add: renderPass_def)
    then have "render (Suc k) ag li a s = Some (catchError li False e s1)"
      by (simp add: render_def renderInner_def)
    then show ?thesis using catch [OF n1, of e] ia Inl by auto
  next
    case (Inr v)
    have n2: "noStateCells (resetSoft s1)" using n1 by (simp add: noStateCells_def resetSoft_def)
    have a1: "applyStateChanges (resetSoft s1) = (False, resetSoft s1)"
      using n2 by (rule noState_settled)
    obtain r4 s4 where te: "triggerEffects (resetSoft s1) = (r4, s4)"
      by (cases "triggerEffects (resetSoft s1)")
    have n4: "noStateCells s4" using triggerEffects_noState [OF n2] te by simp
    have f4: "sameOutside (resetSoft s1) s4" using triggerEffects_keeps [of "resetSoft s1"] te by simp
    show ?thesis
    proof (cases r4)
      case (Some e)
      then have "renderPass ag li False None ?s0 = Stop (Some e) s4"
        using ia Inr a1 te by (simp add: renderPass_def)
      then have "render (Suc k) ag li a s = Some (catchError li False e s4)"
        by (simp add: render_def renderInner_def)
      then show ?thesis using catch [OF n4, of e] ia Inr a1 te Some by auto
    next
      case None
      have a2: "applyStateChanges s4 = (False, s4)" using n4 by (rule noState_settled)
      obtain r6 s6 where em: "emit li (ValueEvent v False False) s4 = (r6, s6)"
        by (cases "emit li (ValueEvent v False False) s4")
      have s6: "events s6 = events s @ [ValueEvent v False False]" "agentLog s6 = agentLog s @ [Inr v]"
        "noStateCells s6"
        using em f4 f1 Inr n4 by (auto simp: emit_def sameOutside_def resetSoft_def noStateCells_def)
      have rp: "renderPass ag li False None ?s0 = Stop r6 s6"
        using ia Inr a1 te None a2 em by (simp add: renderPass_def)
      show ?thesis
      proof (cases r6)
        case None
        then have "render (Suc k) ag li a s = Some (None, s6)"
          using rp by (simp add: render_def renderInner_def)
        then show ?thesis using s6 ia Inr by auto
      next
        case (Some e)
        then have r: "render (Suc k) ag li a s = Some (catchError li False e s6)"
          using rp by (simp add: render_def renderInner_def)
        obtain r t where c: "catchError li False e s6 = (r, t)" "noStateCells t"
          using catch [OF s6(3), of e] by auto
        have "agentLog t = agentLog s6" using catchError_facts(2) [OF c(1)] .
        moreover have "events t = events s6 @ [ErrorEvent e False]"
          using catchError_events [OF c(1)] .
        ultimately have "agentLog t = agentLog s @ [Inr v] \<and>
          (\<exists>new. events t = events s @ new \<and> filter isValueEvent new = [ValueEvent v False False])"
          using s6 by auto
        then show ?thesis using r c ia Inr by auto
      qed
    qed
  qed
qed

lemma renderAll_total:
  assumes ag: "ag = (\<lambda>a. withoutState (body a))"
  shows "noStateCells s \<Longrightarrow>
    \<exists>t. renderAll (Suc k) ag li as s = Some t \<and> noStateCells t"
proof (induction as arbitrary: s)
  case Nil
  then show ?case by simp
next
  case (Cons a as)
  obtain r t1 where r: "render (Suc k) ag li a s = Some (r, t1)" "noStateCells t1"
    using render_stateless [OF Cons.prems ag, of k li a] by blast
  then show ?case using Cons.IH [OF r(2)] by simp
qed

lemma renderAll_stateless:
  assumes ag: "ag = (\<lambda>a. withoutState (body a))"
  shows "noStateCells s \<Longrightarrow> neverThrows (Suc k) ag li as s \<Longrightarrow>
    \<exists>t vs. renderAll (Suc k) ag li as s = Some t \<and> length vs = length as \<and>
      agentLog t = agentLog s @ map Inr vs \<and>
      (\<exists>new. events t = events s @ new \<and>
         filter isValueEvent new = map (\<lambda>v. ValueEvent v False False) vs)"
proof (induction as arbitrary: s)
  case Nil
  then show ?case by simp
next
  case (Cons a as)
  obtain r t1 where r: "render (Suc k) ag li a s = Some (r, t1)" "noStateCells t1"
    and imp: "\<forall>v s1 s2. invokeAgent ag (s\<lparr>args := Some a\<rparr>) = (Inr v, s1) \<and>
        triggerEffects (snd (applyStateChanges (resetSoft s1))) = (None, s2) \<longrightarrow>
        agentLog t1 = agentLog s @ [Inr v] \<and>
        (\<exists>new. events t1 = events s @ new \<and>
           filter isValueEvent new = [ValueEvent v False False])"
    using render_stateless [OF Cons.prems(1) ag, of k li a] by blast
  obtain v s1 s2 where ok: "invokeAgent ag (s\<lparr>args := Some a\<rparr>) = (Inr v, s1)"
    "triggerEffects (snd (applyStateChanges (resetSoft s1))) = (None, s2)"
    and rest: "neverThrows (Suc k) ag li as t1"
    using Cons.prems(2) r(1)
    by (auto split: prod.splits sum.splits option.splits)
  obtain new1 where one: "agentLog t1 = agentLog s @ [Inr v]" "events t1 = events s @ new1"
    "filter isValueEvent new1 = [ValueEvent v False False]"
    using imp ok by blast
  obtain t vs new where ih: "renderAll (Suc k) ag li as t1 = Some t"
    "length vs = length as" "agentLog t = agentLog t1 @ map Inr vs"
    "events t = events t1 @ new"
    "filter isValueEvent new = map (\<lambda>v. ValueEvent v False False) vs"
    using Cons.IH [OF r(2) rest] by blast
  have "renderAll (Suc k) ag li (a # as) s = Some t \<and>
      length (v # vs) = length (a # as) \<and>
      agentLog t = agentLog s @ map Inr (v # vs) \<and>
      events t = events s @ (new1 @ new) \<and>
      filter isValueEvent (new1 @ new) = map (\<lambda>v. ValueEvent v False False) (v # vs)"
    using r(1) ih one by simp
  then show ?case by blast
qed

section \<open>The comparator\<close>

lemma areDependenciesEqual_iff:
  "areDependenciesEqual p n \<longleftrightarrow>
     (\<exists>xs ys. p = Some xs \<and> n = Some ys \<and> length xs = length ys \<and>
        (\<forall>i < length xs. xs ! i = ys ! i))"
proof (cases p)
  case None
  then show ?thesis by simp
next
  case (Some xs)
  show ?thesis
  proof (cases n)
    case None
    then show ?thesis using Some by simp
  next
    case (Some ys)
    then show ?thesis using \<open>p = Some xs\<close> by (auto simp: list_all2_conv_all_nth)
  qed
qed

section \<open>Memoised values\<close>

lemma useMemo_first_then_equal:
  assumes "read s = None" and "pointer s \<le> length (memoryCells s)"
    and "createValue (world s) = (Inr v, w)"
    and "areDependenciesEqual (Some deps) (Some deps')"
  shows "useMemo createValue' deps' ((snd (useMemo createValue deps s))\<lparr>pointer := pointer s\<rparr>) =
           (Inr v, snd (useMemo createValue deps s))"
proof -
  have p: "pointer s = length (memoryCells s)"
    using assms(1,2) by (simp add: read_def split: if_splits)
  let ?t = "(snd (useMemo createValue deps s))\<lparr>pointer := pointer s\<rparr>"
  have t: "snd (useMemo createValue deps s) =
      s\<lparr>world := w, memoryCells := memoryCells s @ [MemoCell \<lparr>memo_value = v, memo_dependencies = deps\<rparr>],
        pointer := pointer s + 1\<rparr>"
    using assms(1,3) p by (simp add: useMemo_def writeCell_def movePointer_def)
  have rd: "read ?t = Some (MemoCell \<lparr>memo_value = v, memo_dependencies = deps\<rparr>)"
    using t p by (simp add: read_def)
  have "useMemo createValue' deps' ?t = (Inr v, movePointer ?t)"
    using rd assms(4) by (simp add: useMemo_def)
  moreover have "movePointer ?t = snd (useMemo createValue deps s)"
    using t by (simp add: movePointer_def)
  ultimately show ?thesis by simp
qed

section \<open>Frame conditions of the hook variant\<close>

lemma sameHook_refl [simp]: "sameHook s s"
  by (simp add: sameHook_def)

lemma sameHook_trans: "sameHook s t \<Longrightarrow> sameHook t u \<Longrightarrow> sameHook s u"
  by (simp add: sameHook_def)

lemma sameHook_upd [simp]:
  "sameHook s (t\<lparr>memoryCells := m\<rparr>) = sameHook s t"
  "sameHook s (t\<lparr>pointer := p\<rparr>) = sameHook s t"
  "sameHook s (t\<lparr>nextId := n\<rparr>) = sameHook s t"
  "sameHook s (t\<lparr>activeHost := h\<rparr>) = sameHook s t"
  "sameHook s (t\<lparr>world := w\<rparr>) = sameHook s t"
  by (simp_all add: sameHook_def)

lemma setState_hook_same: "sameHook s (setState_hook i ch s)"
  by (simp add: setState_hook_def sameHook_def)

lemma setStates_hook_same: "sameHook s t \<Longrightarrow> sameHook s (setStates_hook cs t)"
proof (induction cs arbitrary: t)
  case Nil
  then show ?case by simp
next
  case (Cons c cs)
  obtain i ch where c: "c = (i, ch)" by (cases c)
  have "sameHook s (setState_hook i ch t)"
    using Cons.prems setState_hook_same sameHook_trans by blast
  then show ?case using Cons.IH c by simp
qed

lemma runDispose_hook_same: "sameHook s t \<Longrightarrow> sameHook s (snd (runDispose_hook d t))"
  by (cases d) (simp add: setStates_hook_same split: prod.splits)

lemma runEffect_hook_same: "sameHook s t \<Longrightarrow> sameHook s (snd (runEffect_hook f t))"
  by (cases f) (simp add: setStates_hook_same split: prod.splits)

lemma invokeCleanup_hook_same:
  "sameHook s t \<Longrightarrow> sameHook s (snd (invokeCleanup_hook i c t))"
proof (cases "dispose c")
  case None
  then show "sameHook s t \<Longrightarrow> ?thesis" by (simp add: invokeCleanup_hook_def)
next
  case (Some d)
  assume st: "sameHook s t"
  obtain r t1 where rd: "runDispose_hook d t = (r, t1)" by (cases "runDispose_hook d t")
  have "sameHook s t1" using runDispose_hook_same [OF st, of d] rd by simp
  then show ?thesis using Some rd by (simp add: invokeCleanup_hook_def)
qed

lemma disposeCells_hook_same: "sameHook s t \<Longrightarrow> sameHook s (disposeCells_hook is t)"
proof (induction "is" arbitrary: t)
  case Nil
  then show ?case by simp
next
  case (Cons i "is")
  show ?case
  proof (cases "memoryCells t ! i")
    case (EffectCell c)
    have "sameHook s (snd (invokeCleanup_hook i c t))"
      using Cons.prems by (rule invokeCleanup_hook_same)
    then show ?thesis using EffectCell Cons.IH by simp
  qed (use Cons in simp_all)
qed

lemma resetHard_hook_same: "sameHook s t \<Longrightarrow> sameHook s (resetHard_hook t)"
  using disposeCells_hook_same [of s t "[0 ..< length (memoryCells t)]"]
  by (simp add: resetHard_hook_def)

lemma applyStateChanges_hook_same:
  fixes s t :: "('a, 'v, 'w) hook_host"
  shows "sameHook s t \<Longrightarrow> sameHook s (snd (applyStateChanges t))"
  by (simp add: applyStateChanges_def)

lemma runEffects_hook_same: "sameHook s t \<Longrightarrow> sameHook s (snd (runEffects_hook is t))"
proof (induction "is" arbitrary: t)
  case Nil
  then show ?case by simp
next
  case (Cons i "is")
  show ?case
  proof (cases "memoryCells t ! i")
    case (EffectCell c)
    show ?thesis
    proof (cases "outdated c")
      case False
      then show ?thesis using EffectCell Cons by simp
    next
      case True
      obtain r t1 where rd: "invokeCleanup_hook i c t = (r, t1)"
        by (cases "invokeCleanup_hook i c t")
      have t1: "sameHook s t1" using invokeCleanup_hook_same [OF Cons.prems, of i c] rd by simp
      show ?thesis
      proof (cases r)
        case (Some e)
        then show ?thesis using EffectCell True rd t1 by simp
      next
        case None
        obtain q t2 where re: "runEffect_hook (effect c) t1 = (q, t2)"
          by (cases "runEffect_hook (effect c) t1")
        have t2: "sameHook s t2" using runEffect_hook_same [OF t1, of "effect c"] re by simp
        show ?thesis
          using EffectCell True rd None re t2 Cons.IH
          by (cases q) simp_all
      qed
    qed
  qed (use Cons in simp_all)
qed

lemma triggerEffects_hook_same: "sameHook s t \<Longrightarrow> sameHook s (snd (triggerEffects_hook t))"
  by (simp add: triggerEffects_hook_def runEffects_hook_same)

lemma useState_hook_same:
  fixes s t :: "('a, 'v, 'w) hook_host"
  shows "sameHook s t \<Longrightarrow> sameHook s (snd (useState i t))"
  by (auto simp: useState_def movePointer_def writeCell_def
      split: option.splits memory_cell.splits initial_state.splits prod.splits sum.splits)

lemma useEffect_hook_same:
  fixes s t :: "('a, 'v, 'w) hook_host"
  shows "sameHook s t \<Longrightarrow> sameHook s (snd (useEffect f d t))"
  by (auto simp: useEffect_def movePointer_def writeCell_def
      split: option.splits memory_cell.splits)

lemma useMemo_hook_same:
  fixes s t :: "('a, 'v, 'w) hook_host"
  shows "sameHook s t \<Longrightarrow> sameHook s (snd (useMemo f d t))"
  by (auto simp: useMemo_def movePointer_def writeCell_def
      split: option.splits memory_cell.splits prod.splits sum.splits)

lemma runBody_hook_same: "sameHook s t \<Longrightarrow> sameHook s (snd (runBody_hook b t))"
proof (induction b arbitrary: t)
  case (UseState i k)
  obtain r t1 where u: "useState i t = (r, t1)" by (cases "useState i t")
  have t1: "sameHook s t1" using useState_hook_same [OF UseState.prems, of i] u by simp
  have "sameHook s (snd (runBody_hook (k a b) t1))" for a b
    by (rule UseState.IH) (auto simp: t1)
  then show ?case using u t1 by (auto split: sum.splits)
next
  case (UseEffect f d k)
  obtain r t1 where u: "useEffect f d t = (r, t1)" by (cases "useEffect f d t")
  have "sameHook s t1" using useEffect_hook_same [OF UseEffect.prems, of f d] u by simp
  then show ?case using u UseEffect.IH by (auto split: option.splits)
next
  case (UseMemo f d k)
  obtain r t1 where u: "useMemo f d t = (r, t1)" by (cases "useMemo f d t")
  have t1: "sameHook s t1" using useMemo_hook_same [OF UseMemo.prems, of f d] u by simp
  have "sameHook s (snd (runBody_hook (k a) t1))" for a
    by (rule UseMemo.IH) (auto simp: t1)
  then show ?case using u t1 by (auto split: sum.splits)
next
  case (CallSetState i ch k)
  have "sameHook s (setState_hook i ch t)"
    using CallSetState.prems setState_hook_same sameHook_trans by blast
  then show ?case using CallSetState.IH by simp
qed simp_all

lemma invokeHook_same:
  assumes "invokeHook hook s = (r, t)"
  shows "sameHook s (t\<lparr>agentLog := agentLog s\<rparr>) \<and> agentLog t = agentLog s @ [r]"
proof (cases "args s")
  case None
  with assms show ?thesis by (auto simp: invokeHook_def sameHook_def)
next
  case (Some x)
  obtain q u where rb: "runBody_hook (hook x) (s\<lparr>activeHost := Some (self s)\<rparr>) = (q, u)"
    by (cases "runBody_hook (hook x) (s\<lparr>activeHost := Some (self s)\<rparr>)")
  have "sameHook s u"
    using runBody_hook_same [of s "s\<lparr>activeHost := Some (self s)\<rparr>" "hook x"] rb by simp
  moreover from assms Some rb have "r = q" "t = u\<lparr>activeHost := None, agentLog := agentLog u @ [q]\<rparr>"
    by (auto simp: invokeHook_def)
  ultimately show ?thesis by (simp add: sameHook_def)
qed

section \<open>The trace of the hook variant\<close>

text \<open>
  What one pass of the hook variant leaves behind, and what its render procedure
  leaves behind: one rendering event, and the microtask queue as it was.
\<close>

lemma renderPass_hook_Again:
  assumes "renderPass_hook hook li results s = AgainHook results1 t"
  shows "\<exists>v. results1 = v # results \<and> agentLog t = agentLog s @ [Inr v] \<and>
    sameHook s (t\<lparr>agentLog := agentLog s\<rparr>)"
proof -
  obtain q s2 where ia: "invokeHook hook s = (q, s2)" by (cases "invokeHook hook s")
  obtain v where q: "q = Inr v" using assms ia by (cases q) (auto simp: renderPass_hook_def)
  note s2 = invokeHook_same [OF ia]
  obtain b s3 where a1: "applyStateChanges (resetSoft s2) = (b, s3)"
    by (cases "applyStateChanges (resetSoft s2)")
  have s3: "sameHook s2 s3"
    using applyStateChanges_hook_same [of s2 "resetSoft s2"] a1 by (simp add: resetSoft_def)
  obtain r4 s4 where te: "triggerEffects_hook s3 = (r4, s4)" by (cases "triggerEffects_hook s3")
  have s4: "sameHook s3 s4" using triggerEffects_hook_same [of s3 s3] te by simp
  obtain b5 s5 where a2: "applyStateChanges s4 = (b5, s5)" by (cases "applyStateChanges s4")
  have s5: "sameHook s4 s5" using applyStateChanges_hook_same [of s4 s4] a2 by simp
  have "results1 = v # results \<and> (t = s3 \<or> t = s5)"
    using assms ia q a1 te a2
    by (cases b; cases r4; cases b5) (auto simp: renderPass_hook_def emit_hook_def split: prod.splits)
  then show ?thesis using s2 s3 s4 s5 q by (auto simp: sameHook_def)
qed

lemma renderPass_hook_frame:
  assumes "renderPass_hook hook li results s = StopHook r t"
  shows "rendering t = rendering s \<and> (rendering s \<longrightarrow> microtasks t = microtasks s)"
proof -
  obtain q s2 where ia: "invokeHook hook s = (q, s2)" by (cases "invokeHook hook s")
  note s2 = invokeHook_same [OF ia]
  obtain b s3 where a1: "applyStateChanges (resetSoft s2) = (b, s3)"
    by (cases "applyStateChanges (resetSoft s2)")
  have s3: "sameHook s2 s3"
    using applyStateChanges_hook_same [of s2 "resetSoft s2"] a1 by (simp add: resetSoft_def)
  obtain r4 s4 where te: "triggerEffects_hook s3 = (r4, s4)" by (cases "triggerEffects_hook s3")
  have s4: "sameHook s3 s4" using triggerEffects_hook_same [of s3 s3] te by simp
  obtain b5 s5 where a2: "applyStateChanges s4 = (b5, s5)" by (cases "applyStateChanges s4")
  have s5: "sameHook s4 s5" using applyStateChanges_hook_same [of s4 s4] a2 by simp
  have "t = s2 \<or> t = s4 \<or> (\<exists>ev. t = s5\<lparr>hookEvents := hookEvents s5 @ [ev]\<rparr>)"
    using assms ia a1 te a2
    by (cases q; cases b; cases r4; cases b5)
       (auto simp: renderPass_hook_def emit_hook_def split: prod.splits)
  then show ?thesis using s2 s3 s4 s5 by (auto simp: sameHook_def)
qed

lemma renderLoop_hook_frame:
  "renderLoop_hook n hook li results s = Some (r, t) \<Longrightarrow>
     rendering t = rendering s \<and> (rendering s \<longrightarrow> microtasks t = microtasks s)"
proof (induction n arbitrary: results s)
  case 0
  then show ?case by simp
next
  case (Suc n)
  show ?case
  proof (cases "renderPass_hook hook li results s")
    case (StopHook r1 s1)
    then have "renderPass_hook hook li results s = StopHook r t" using Suc.prems by simp
    then show ?thesis by (rule renderPass_hook_frame)
  next
    case (AgainHook results1 s1)
    then have "renderLoop_hook n hook li results1 s1 = Some (r, t)" using Suc.prems by simp
    from Suc.IH [OF this] renderPass_hook_Again [OF AgainHook]
    show ?thesis by (auto simp: sameHook_def)
  qed
qed

lemma renderInner_hook_microtasks:
  assumes "renderInner_hook fuel hook li s = Some (r, t)"
  shows "microtasks t = microtasks s \<and> \<not> rendering t"
proof -
  obtain u where u: "renderLoop_hook fuel hook li [] (s\<lparr>rendering := True\<rparr>) = Some (r, u)"
    and t: "t = u\<lparr>rendering := False\<rparr>"
    using assms by (auto simp: renderInner_hook_def split: option.splits)
  from renderLoop_hook_frame [OF u] show ?thesis using t by auto
qed

lemma renderPass_hook_Stop_any:
  assumes "renderPass_hook hook li results s = StopHook r t"
  shows "(\<exists>v. agentLog t = agentLog s @ [Inr v] \<and>
            hookEvents t = hookEvents s @ [RenderingEvent v results] \<and>
            r = li (hookEvents s) (RenderingEvent v results))
       \<or> (r \<noteq> None \<and> hookEvents t = hookEvents s)"
proof -
  obtain q s2 where ia: "invokeHook hook s = (q, s2)" by (cases "invokeHook hook s")
  note s2 = invokeHook_same [OF ia]
  show ?thesis
  proof (cases q)
    case (Inl e)
    then have "t = s2" "r = Some e" using assms ia by (auto simp: renderPass_hook_def)
    then show ?thesis using s2 by (simp add: sameHook_def)
  next
    case (Inr v)
    obtain b s3 where a1: "applyStateChanges (resetSoft s2) = (b, s3)"
      by (cases "applyStateChanges (resetSoft s2)")
    have s3: "sameHook s2 s3"
      using applyStateChanges_hook_same [of s2 "resetSoft s2"] a1 by (simp add: resetSoft_def)
    have b: "\<not> b" using assms ia Inr a1 by (cases b) (auto simp: renderPass_hook_def)
    obtain r4 s4 where te: "triggerEffects_hook s3 = (r4, s4)" by (cases "triggerEffects_hook s3")
    have s4: "sameHook s3 s4" using triggerEffects_hook_same [of s3 s3] te by simp
    show ?thesis
    proof (cases r4)
      case (Some e)
      then have "t = s4" "r = Some e" using assms ia Inr a1 b te by (auto simp: renderPass_hook_def)
      then show ?thesis using s2 s3 s4 by (simp add: sameHook_def)
    next
      case None
      obtain b5 s5 where a2: "applyStateChanges s4 = (b5, s5)" by (cases "applyStateChanges s4")
      have s5: "sameHook s4 s5" using applyStateChanges_hook_same [of s4 s4] a2 by simp
      have b5: "\<not> b5" using assms ia Inr a1 b te None a2 by (cases b5) (auto simp: renderPass_hook_def)
      have "emit_hook li (RenderingEvent v results) s5 = (r, t)"
        using assms ia Inr a1 b te None a2 b5 by (auto simp: renderPass_hook_def split: prod.splits)
      then have "agentLog t = agentLog s @ [Inr v] \<and>
            hookEvents t = hookEvents s @ [RenderingEvent v results] \<and>
            r = li (hookEvents s) (RenderingEvent v results)"
        using s2 s3 s4 s5 Inr by (auto simp: sameHook_def emit_hook_def)
      then show ?thesis by blast
    qed
  qed
qed

lemma renderLoop_hook_any:
  "renderLoop_hook n hook li results s = Some (r, t) \<Longrightarrow>
     (\<exists>vs v. agentLog t = agentLog s @ map Inr (vs @ [v]) \<and>
        hookEvents t = hookEvents s @ [RenderingEvent v (rev vs @ results)] \<and>
        r = li (hookEvents s) (RenderingEvent v (rev vs @ results)))
   \<or> (r \<noteq> None \<and> hookEvents t = hookEvents s)"
proof (induction n arbitrary: results s)
  case 0
  then show ?case by simp
next
  case (Suc n)
  show ?case
  proof (cases "renderPass_hook hook li results s")
    case (StopHook r1 s1)
    then have "renderPass_hook hook li results s = StopHook r t" using Suc.prems by simp
    from renderPass_hook_Stop_any [OF this] consider
      (final) v where "agentLog t = agentLog s @ map Inr ([] @ [v])"
        "hookEvents t = hookEvents s @ [RenderingEvent v (rev [] @ results)]"
        "r = li (hookEvents s) (RenderingEvent v (rev [] @ results))"
    | (thrown) "r \<noteq> None" "hookEvents t = hookEvents s"
      by auto
    then show ?thesis by cases blast+
  next
    case (AgainHook results1 s1)
    then have loop: "renderLoop_hook n hook li results1 s1 = Some (r, t)" using Suc.prems by simp
    from renderPass_hook_Again [OF AgainHook] obtain w where w:
      "results1 = w # results" "agentLog s1 = agentLog s @ [Inr w]"
      "sameHook s (s1\<lparr>agentLog := agentLog s\<rparr>)"
      by blast
    from Suc.IH [OF loop] consider
      (final) vs v where "agentLog t = agentLog s1 @ map Inr (vs @ [v])"
        "hookEvents t = hookEvents s1 @ [RenderingEvent v (rev vs @ results1)]"
        "r = li (hookEvents s1) (RenderingEvent v (rev vs @ results1))"
    | (thrown) "r \<noteq> None" "hookEvents t = hookEvents s1"
      by blast
    then show ?thesis
    proof cases
      case final
      have "agentLog t = agentLog s @ map Inr ((w # vs) @ [v]) \<and>
        hookEvents t = hookEvents s @ [RenderingEvent v (rev (w # vs) @ results)] \<and>
        r = li (hookEvents s) (RenderingEvent v (rev (w # vs) @ results))"
        using final w by (simp add: sameHook_def)
      then show ?thesis by blast
    next
      case thrown
      then show ?thesis using w by (simp add: sameHook_def)
    qed
  qed
qed

lemma renderInner_hook_any:
  assumes "renderInner_hook fuel hook li s = Some (r, t)"
  shows "(\<exists>vs v. agentLog t = agentLog s @ map Inr (vs @ [v]) \<and>
        hookEvents t = hookEvents s @ [RenderingEvent v (rev vs)] \<and>
        r = li (hookEvents s) (RenderingEvent v (rev vs)))
   \<or> (r \<noteq> None \<and> hookEvents t = hookEvents s)"
proof -
  obtain u where u: "renderLoop_hook fuel hook li [] (s\<lparr>rendering := True\<rparr>) = Some (r, u)"
    and t: "t = u\<lparr>rendering := False\<rparr>"
    using assms by (auto simp: renderInner_hook_def split: option.splits)
  from renderLoop_hook_any [OF u] show ?thesis using t by auto
qed

section \<open>Drained queues in the hook variant\<close>

lemma renderPass_hook_drained:
  assumes "renderPass_hook hook li results s = StopHook None t"
  shows "drained t"
proof -
  obtain q s2 where ia: "invokeHook hook s = (q, s2)" by (cases "invokeHook hook s")
  obtain v where q: "q = Inr v" using assms ia by (cases q) (auto simp: renderPass_hook_def)
  obtain b s3 where a1: "applyStateChanges (resetSoft s2) = (b, s3)"
    by (cases "applyStateChanges (resetSoft s2)")
  obtain r4 s4 where te: "triggerEffects_hook s3 = (r4, s4)" by (cases "triggerEffects_hook s3")
  obtain b5 s5 where a2: "applyStateChanges s4 = (b5, s5)" by (cases "applyStateChanges s4")
  have "emit_hook li (RenderingEvent v results) s5 = (None, t)"
    using assms ia q a1 te a2
    by (cases b; cases r4; cases b5) (auto simp: renderPass_hook_def split: prod.splits)
  then have "memoryCells t = memoryCells s5" by (auto simp: emit_hook_def)
  moreover have "drained s5" using applyStateChanges_drained [of s4] a2 by simp
  ultimately show ?thesis by (simp add: drained_def)
qed

lemma renderLoop_hook_drained:
  "renderLoop_hook n hook li results s = Some (None, t) \<Longrightarrow> drained t"
proof (induction n arbitrary: results s)
  case 0
  then show ?case by simp
next
  case (Suc n)
  show ?case
  proof (cases "renderPass_hook hook li results s")
    case (StopHook r1 s1)
    then have "renderPass_hook hook li results s = StopHook None t" using Suc.prems by simp
    then show ?thesis by (rule renderPass_hook_drained)
  next
    case (AgainHook results1 s1)
    then have "renderLoop_hook n hook li results1 s1 = Some (None, t)" using Suc.prems by simp
    then show ?thesis by (rule Suc.IH)
  qed
qed

lemma catchError_hook_drained:
  assumes "catchError_hook li e s = (r, t)"
  shows "drained t"
  using assms by (auto simp: catchError_hook_def emit_hook_def resetHard_hook_def drained_def)

lemma renderAsynchronously_drained:
  assumes "renderAsynchronously fuel hook li s = Some (None, t)"
  shows "drained t"
proof -
  obtain b s0 where ap: "applyStateChanges s = (b, s0)" by (cases "applyStateChanges s")
  have s0: "drained s0" using applyStateChanges_drained [of s] ap by simp
  show ?thesis
  proof (cases b)
    case False
    then show ?thesis using assms ap s0 by (simp add: renderAsynchronously_def)
  next
    case True
    then obtain r1 s1 where inner: "renderInner_hook fuel hook li s0 = Some (r1, s1)"
      using assms ap by (auto simp: renderAsynchronously_def split: option.splits)
    show ?thesis
    proof (cases r1)
      case None
      then have ts: "t = s1" using assms ap True inner by (simp add: renderAsynchronously_def)
      obtain u where u: "renderLoop_hook fuel hook li [] (s0\<lparr>rendering := True\<rparr>) = Some (None, u)"
        and s1: "s1 = u\<lparr>rendering := False\<rparr>"
        using inner None by (auto simp: renderInner_hook_def split: option.splits)
      have "drained u" using u by (rule renderLoop_hook_drained)
      then show ?thesis using ts s1 by (simp add: drained_def)
    next
      case (Some e)
      then have "catchError_hook li e s1 = (None, t)"
        using assms ap True inner by (simp add: renderAsynchronously_def)
      then show ?thesis by (rule catchError_hook_drained)
    qed
  qed
qed

lemma renderAsynchronously_again:
  assumes "renderAsynchronously fuel hook li s = Some (None, t)"
  shows "renderAsynchronously fuel hook li t = Some (None, t)"
  using drained_applyStateChanges [OF renderAsynchronously_drained [OF assms]]
  by (simp add: renderAsynchronously_def)

text \<open>
  The hook variant on the agents above: the values of the earlier passes arrive in the
  one event, the latest first, and a setter called by an effect queues nothing.
\<close>

lemma hook_variant_examples:
  "hookEvents (snd (the (render_hook 5 counter quiet_hook () (newHookHost 0 ())))) =
     [RenderingEvent 2 [1, 0]]"
  "hookEvents (snd (the (render_hook 2 effectSetter quiet_hook () (newHookHost 0 ())))) =
     [RenderingEvent 1 [0]]"
  "microtasks (snd (the (render_hook 2 effectSetter quiet_hook () (newHookHost 0 ())))) = 0"
  "rendering (snd (the (render_hook 2 effectSetter quiet_hook () (newHookHost 0 ())))) = False"
  by (simp_all add: run run_hook counter_def effectSetter_def quiet_hook_def)

section \<open>The example of the README\<close>

text \<open>
  The model yields the events that the README lists for its usage example, in the
  same order.
\<close>

lemma readme_events:
  "events readmeCalls =
     [ValueEvent ''Hello, John Doe!'' False True,
      ValueEvent ''Hello, Jane Doe!'' False False,
      ValueEvent ''Welcome, Jane Doe!'' False False,
      ResetEvent,
      ValueEvent ''Hi, John Doe!'' False True,
      ValueEvent ''Hi, Jane Doe!'' False False,
      ValueEvent ''Hey, Jane Doe!'' False False]"
  "microtasks readmeCalls = 2"
  "events readmeLater = events readmeCalls @ [ValueEvent ''Hey, Johnny Doe!'' True False]"
  "microtasks readmeLater = 0"
  unfolding readmeLater_def readmeCalls_def by (simp_all add: run greeting_def silent_def)

section \<open>The claims\<close>

text \<open>
  C1, as amended. An exception that leaves the render procedure of \<open>render\<close> (thrown by the
  agent, by an effect or a cleanup that the procedure invokes, or by the listener)
  is caught: the hard reset empties the Memory, and exactly one error event,
  carrying the caught value with \<open>async = False\<close>, is handed to the listener.
  \<open>render\<close> throws nothing of its own: it ends the way that call of the listener
  ends, so it returns normally unless the listener throws on the error event.
\<close>

theorem render_catches:
  assumes "renderInner fuel agent listener False (s\<lparr>args := Some a\<rparr>) = Some (Some e, s1)"
  shows "render fuel agent listener a s =
           Some (listener (events s1) (ErrorEvent e False),
                 (resetHard s1)\<lparr>events := events s1 @ [ErrorEvent e False]\<rparr>) \<and>
         memoryCells (resetHard s1) = [] \<and>
         (\<exists>new. events s1 @ [ErrorEvent e False] = events s @ new \<and>
            filter isErrorEvent new = [ErrorEvent e False])"
proof -
  have c: "render fuel agent listener a s = Some (catchError listener False e s1)"
    using assms by (simp add: render_def)
  obtain new where "events s1 = events (s\<lparr>args := Some a\<rparr>) @ new" "filter isErrorEvent new = []"
    using stops_events [OF renderInner_stops [OF assms]] by auto
  then have "events s1 @ [ErrorEvent e False] = events s @ (new @ [ErrorEvent e False]) \<and>
      filter isErrorEvent (new @ [ErrorEvent e False]) = [ErrorEvent e False]"
    by simp
  then have "\<exists>new. events s1 @ [ErrorEvent e False] = events s @ new \<and>
      filter isErrorEvent new = [ErrorEvent e False]"
    by blast
  then show ?thesis using c by (simp add: catchError_ok resetHard_facts)
qed

theorem render_catches_witness:
  "renderInner 1 thrower quiet False (newHost 0 ()\<lparr>args := Some ()\<rparr>) =
     Some (Some (Thrown 7), newHost 0 ()\<lparr>args := Some (), agentLog := [Inl (Thrown 7)]\<rparr>) \<and>
   fst (the (render 1 thrower quiet () (newHost 0 ()))) = None \<and>
   events (snd (the (render 1 thrower quiet () (newHost 0 ())))) = [ErrorEvent (Thrown 7) False] \<and>
   memoryCells (snd (the (render 1 thrower quiet () (newHost 0 ())))) = [] \<and>
   fst (the (renderInner 1 restless quiet False
     ((snd (the (render 1 restless quiet 0 (newHost 0 []))))\<lparr>args := Some 1\<rparr>))) = Some (Thrown 9) \<and>
   agentLog (snd (the (render 1 restless quiet 1 (snd (the (render 1 restless quiet 0 (newHost 0 []))))))) =
     [Inr 0, Inr 1] \<and>
   fst (the (render 1 restless quiet 1 (snd (the (render 1 restless quiet 0 (newHost 0 [])))))) = None \<and>
   events (snd (the (render 1 restless quiet 1 (snd (the (render 1 restless quiet 0 (newHost 0 []))))))) =
     [ValueEvent 0 False False, ErrorEvent (Thrown 9) False] \<and>
   memoryCells (snd (the (render 1 restless quiet 1 (snd (the (render 1 restless quiet 0 (newHost 0 []))))))) =
     [] \<and>
   world (snd (the (render 1 restless quiet 1 (snd (the (render 1 restless quiet 0 (newHost 0 []))))))) =
     [1, 10] \<and>
   agentLog (snd (the (render 1 leaky quiet 1 (snd (the (render 1 leaky quiet 0 (newHost 0 ()))))))) =
     [Inr 0, Inl (Thrown 7)] \<and>
   fst (the (render 1 leaky quiet 1 (snd (the (render 1 leaky quiet 0 (newHost 0 ())))))) = None \<and>
   events (snd (the (render 1 leaky quiet 1 (snd (the (render 1 leaky quiet 0 (newHost 0 ()))))))) =
     [ValueEvent 0 False False, ErrorEvent (Thrown 7) False]"
proof -
  let ?s1 = "newHost 0 ()\<lparr>args := Some (), agentLog := [Inl (Thrown 7)]\<rparr> :: (unit, nat, unit) host"
  let ?u = "snd (the (render 1 restless quiet 0 (newHost 0 []))) :: (nat, nat, nat list) host"
  have i: "renderInner 1 thrower quiet False (newHost 0 ()\<lparr>args := Some ()\<rparr>) = Some (Some (Thrown 7), ?s1)"
    by (simp add: run thrower_def quiet_def)
  have "render 1 thrower quiet () (newHost 0 ()) =
           Some (quiet (events ?s1) (ErrorEvent (Thrown 7) False),
                 (resetHard ?s1)\<lparr>events := events ?s1 @ [ErrorEvent (Thrown 7) False]\<rparr>)"
    using render_catches [OF i] by simp
  then have a: "fst (the (render 1 thrower quiet () (newHost 0 ()))) = None"
    "events (snd (the (render 1 thrower quiet () (newHost 0 ())))) = [ErrorEvent (Thrown 7) False]"
    "memoryCells (snd (the (render 1 thrower quiet () (newHost 0 ())))) = []"
    by (simp_all add: quiet_def newHost_def resetHard_facts)
  have ne: "renderInner 1 restless quiet False (?u\<lparr>args := Some 1\<rparr>) \<noteq> None"
    "fst (the (renderInner 1 restless quiet False (?u\<lparr>args := Some 1\<rparr>))) = Some (Thrown 9)"
    by (simp_all add: run restless_def noisyCleanup_def quiet_def)
  then obtain u1 where j: "renderInner 1 restless quiet False (?u\<lparr>args := Some 1\<rparr>) = Some (Some (Thrown 9), u1)"
    by (cases "renderInner 1 restless quiet False (?u\<lparr>args := Some 1\<rparr>)") auto
  have "render 1 restless quiet 1 ?u =
           Some (quiet (events u1) (ErrorEvent (Thrown 9) False),
                 (resetHard u1)\<lparr>events := events u1 @ [ErrorEvent (Thrown 9) False]\<rparr>)"
    using render_catches [OF j] by simp
  then have b: "fst (the (render 1 restless quiet 1 ?u)) = None"
    "memoryCells (snd (the (render 1 restless quiet 1 ?u))) = []"
    by (simp_all add: quiet_def resetHard_facts)
  have c: "agentLog (snd (the (render 1 restless quiet 1 ?u))) = [Inr 0, Inr 1]"
    "events (snd (the (render 1 restless quiet 1 ?u))) =
       [ValueEvent 0 False False, ErrorEvent (Thrown 9) False]"
    "world (snd (the (render 1 restless quiet 1 ?u))) = [1, 10]"
    by (simp_all add: run restless_def noisyCleanup_def quiet_def)
  have d: "agentLog (snd (the (render 1 leaky quiet 1 (snd (the (render 1 leaky quiet 0 (newHost 0 ()))))))) =
     [Inr 0, Inl (Thrown 7)]"
    "fst (the (render 1 leaky quiet 1 (snd (the (render 1 leaky quiet 0 (newHost 0 ())))))) = None"
    "events (snd (the (render 1 leaky quiet 1 (snd (the (render 1 leaky quiet 0 (newHost 0 ()))))))) =
     [ValueEvent 0 False False, ErrorEvent (Thrown 7) False]"
    by (simp_all add: run leaky_def throwingCleanup_def quiet_def)
  show ?thesis using i a ne(2) b c d by simp
qed

text \<open>
  C1 as stated fails: the error event is handed to the listener inside the \<^verbatim>\<open>catch\<close>
  block, unprotected (lines 150-153). With a listener that throws what the error
  event carries, the value thrown by the agent leaves \<open>render\<close>.
\<close>

theorem render_rethrow_counterexample:
  "agentLog (snd (the (render 1 thrower rethrow () (newHost 0 ())))) = [Inl (Thrown 7)] \<and>
   events (snd (the (render 1 thrower rethrow () (newHost 0 ())))) = [ErrorEvent (Thrown 7) False] \<and>
   rethrow [] (ErrorEvent (Thrown 7) False) = Some (Thrown 7) \<and>
   fst (the (render 1 thrower rethrow () (newHost 0 ()))) = Some (Thrown 7)"
  by (simp add: run thrower_def rethrow_def)

text \<open>
  C2, as amended. When the render procedure of \<^verbatim>\<open>index.ts\<close> stabilises, the value of the
  last pass is emitted with \<open>intermediate = False\<close>, and the values of the earlier
  passes have been emitted before it as intermediate value events in the order
  they were produced, oldest first; the procedure ends the way the listener ends
  on that last event. When it ends before (the listener, the agent, an effect or
  a cleanup has thrown), it has emitted intermediate value events only, oldest
  first, one for each value the agent returned but at most the last. When the
  render procedure of the hook variant stabilises, it emits one rendering event:
  its result is the value of the last pass, and its interim results are the
  values of the earlier passes, most recent first; when it ends before, it emits
  nothing.
\<close>

theorem render_value_events:
  "(renderInner fuel agent listener async s = Some (r, t) \<longrightarrow>
      (\<exists>vs. (\<exists>v. agentLog t = agentLog s @ map Inr (vs @ [v]) \<and>
               events t = events s @ intermediates async vs @ [ValueEvent v async False] \<and>
               r = listener (events s @ intermediates async vs) (ValueEvent v async False))
          \<or> (r \<noteq> None \<and> events t = events s @ intermediates async vs \<and>
               (\<exists>rest. agentLog t = agentLog s @ map Inr vs @ rest \<and> length rest \<le> 1)))) \<and>
   (renderInner_hook fuel hook hookListener h = Some (q, u) \<longrightarrow>
      (\<exists>vs v. agentLog u = agentLog h @ map Inr (vs @ [v]) \<and>
         hookEvents u = hookEvents h @ [RenderingEvent v (rev vs)] \<and>
         q = hookListener (hookEvents h) (RenderingEvent v (rev vs)))
      \<or> (q \<noteq> None \<and> hookEvents u = hookEvents h))"
proof (intro conjI impI)
  assume "renderInner fuel agent listener async s = Some (r, t)"
  then have "stops listener async s [] r t" by (rule renderInner_stops)
  then show "\<exists>vs. (\<exists>v. agentLog t = agentLog s @ map Inr (vs @ [v]) \<and>
               events t = events s @ intermediates async vs @ [ValueEvent v async False] \<and>
               r = listener (events s @ intermediates async vs) (ValueEvent v async False))
          \<or> (r \<noteq> None \<and> events t = events s @ intermediates async vs \<and>
               (\<exists>rest. agentLog t = agentLog s @ map Inr vs @ rest \<and> length rest \<le> 1))"
    by (rule stops_values)
next
  assume "renderInner_hook fuel hook hookListener h = Some (q, u)"
  then show "(\<exists>vs v. agentLog u = agentLog h @ map Inr (vs @ [v]) \<and>
         hookEvents u = hookEvents h @ [RenderingEvent v (rev vs)] \<and>
         q = hookListener (hookEvents h) (RenderingEvent v (rev vs)))
      \<or> (q \<noteq> None \<and> hookEvents u = hookEvents h)"
    by (rule renderInner_hook_any)
qed

theorem render_value_events_witness:
  "renderInner 5 counter quiet False (newHost 0 ()\<lparr>args := Some ()\<rparr>) \<noteq> None \<and>
   fst (the (renderInner 5 counter quiet False (newHost 0 ()\<lparr>args := Some ()\<rparr>))) = None \<and>
   agentLog (snd (the (renderInner 5 counter quiet False (newHost 0 ()\<lparr>args := Some ()\<rparr>)))) =
     [Inr 0, Inr 1, Inr 2] \<and>
   (\<exists>vs v. agentLog (snd (the (renderInner 5 counter quiet False (newHost 0 ()\<lparr>args := Some ()\<rparr>)))) =
        agentLog (newHost 0 ()\<lparr>args := Some ()\<rparr> :: (unit, nat, unit) host) @ map Inr (vs @ [v]) \<and>
      events (snd (the (renderInner 5 counter quiet False (newHost 0 ()\<lparr>args := Some ()\<rparr>)))) =
        events (newHost 0 ()\<lparr>args := Some ()\<rparr> :: (unit, nat, unit) host) @
        intermediates False vs @ [ValueEvent v False False]) \<and>
   renderInner 1 echo picky False (newHost 0 ()\<lparr>args := Some 1\<rparr>) \<noteq> None \<and>
   fst (the (renderInner 1 echo picky False (newHost 0 ()\<lparr>args := Some 1\<rparr>))) = Some (Thrown 5) \<and>
   events (snd (the (renderInner 1 echo picky False (newHost 0 ()\<lparr>args := Some 1\<rparr>)))) =
     [ValueEvent 1 False False] \<and>
   renderInner 2 lateThrower quiet False (newHost 0 ()\<lparr>args := Some ()\<rparr>) \<noteq> None \<and>
   fst (the (renderInner 2 lateThrower quiet False (newHost 0 ()\<lparr>args := Some ()\<rparr>))) =
     Some (Thrown 7) \<and>
   events (snd (the (renderInner 2 lateThrower quiet False (newHost 0 ()\<lparr>args := Some ()\<rparr>)))) =
     [ValueEvent 0 False True] \<and>
   renderInner_hook 5 counter quiet_hook startHook \<noteq> None \<and>
   fst (the (renderInner_hook 5 counter quiet_hook startHook)) = None \<and>
   hookEvents (snd (the (renderInner_hook 5 counter quiet_hook startHook))) =
     [RenderingEvent 2 [1, 0]] \<and>
   (\<exists>vs v. agentLog (snd (the (renderInner_hook 5 counter quiet_hook startHook))) =
        agentLog startHook @ map Inr (vs @ [v]) \<and>
      hookEvents (snd (the (renderInner_hook 5 counter quiet_hook startHook))) =
        hookEvents startHook @ [RenderingEvent v (rev vs)])"
proof -
  let ?s = "newHost 0 ()\<lparr>args := Some ()\<rparr> :: (unit, nat, unit) host"
  have ne: "renderInner 5 counter quiet False ?s \<noteq> None"
    by (simp add: run counter_def quiet_def)
  have no: "fst (the (renderInner 5 counter quiet False ?s)) = None"
    by (simp add: run counter_def quiet_def)
  have lg: "agentLog (snd (the (renderInner 5 counter quiet False ?s))) = [Inr 0, Inr 1, Inr 2]"
    by (simp add: run counter_def quiet_def)
  obtain t where t: "renderInner 5 counter quiet False ?s = Some (None, t)"
    using ne no by (cases "renderInner 5 counter quiet False ?s") auto
  have pk: "renderInner 1 echo picky False (newHost 0 ()\<lparr>args := Some 1\<rparr>) \<noteq> None"
    "fst (the (renderInner 1 echo picky False (newHost 0 ()\<lparr>args := Some 1\<rparr>))) = Some (Thrown 5)"
    "events (snd (the (renderInner 1 echo picky False (newHost 0 ()\<lparr>args := Some 1\<rparr>)))) =
       [ValueEvent 1 False False]"
    by (simp_all add: run echo_def picky_def)
  have lt: "renderInner 2 lateThrower quiet False ?s \<noteq> None"
    "fst (the (renderInner 2 lateThrower quiet False ?s)) = Some (Thrown 7)"
    "events (snd (the (renderInner 2 lateThrower quiet False ?s))) = [ValueEvent 0 False True]"
    by (simp_all add: run lateThrower_def quiet_def)
  have hne: "renderInner_hook 5 counter quiet_hook startHook \<noteq> None"
    by (simp add: run run_hook startHook_def counter_def quiet_hook_def)
  have hno: "fst (the (renderInner_hook 5 counter quiet_hook startHook)) = None"
    by (simp add: run run_hook startHook_def counter_def quiet_hook_def)
  have hev: "hookEvents (snd (the (renderInner_hook 5 counter quiet_hook startHook))) =
     [RenderingEvent 2 [1, 0]]"
    by (simp add: run run_hook startHook_def counter_def quiet_hook_def)
  obtain u where u: "renderInner_hook 5 counter quiet_hook startHook = Some (None, u)"
    using hne hno by (cases "renderInner_hook 5 counter quiet_hook startHook") auto
  have 1: "\<exists>vs v. agentLog t = agentLog ?s @ map Inr (vs @ [v]) \<and>
      events t = events ?s @ intermediates False vs @ [ValueEvent v False False]"
    using render_value_events [THEN conjunct1, rule_format, OF t] by auto
  have 2: "\<exists>vs v. agentLog u = agentLog startHook @ map Inr (vs @ [v]) \<and>
      hookEvents u = hookEvents startHook @ [RenderingEvent v (rev vs)]"
    using render_value_events [THEN conjunct2, rule_format, OF u] by auto
  show ?thesis using 1 2 ne no lg t pk lt hne hno hev u by simp
qed

text \<open>
  C2 as stated fails in \<^verbatim>\<open>index.ts\<close>: an agent that takes three passes has its two
  intermediate values emitted oldest first, not most recent first.
\<close>

theorem intermediate_order_counterexample:
  "agentLog (snd (the (render 5 counter quiet () (newHost 0 ())))) = [Inr 0, Inr 1, Inr 2] \<and>
   events (snd (the (render 5 counter quiet () (newHost 0 ())))) =
     [ValueEvent 0 False True, ValueEvent 1 False True, ValueEvent 2 False False] \<and>
   events (snd (the (render 5 counter quiet () (newHost 0 ())))) \<noteq>
     intermediates False (rev [0, 1]) @ [ValueEvent 2 False False]"
  by (simp add: run counter_def quiet_def intermediates_def)

text \<open>
  C3, as amended. A call of a setter appends its argument to the queue of the cell the
  setter belongs to and leaves every other cell as it is. In \<^verbatim>\<open>index.ts\<close> it queues
  a re-render microtask if and only if its Host is not the active Host at that
  moment. The Host is the active Host throughout an invocation of the agent, so
  no setter call that the body of the agent makes queues one. It is not the
  active Host once the invocation has ended, nor after an effect or a cleanup
  has run, so each setter call that an effect or a cleanup makes while the render
  procedure goes on does queue one, and so does a setter call made after \<open>render\<close>
  has returned. In the hook variant a setter call queues one if and only if
  \<open>rendering\<close> is not set; no call made while \<^verbatim>\<open>#render\<close> runs queues one, and
  \<^verbatim>\<open>#render\<close> leaves \<open>rendering\<close> cleared, however it ends. In both, a microtask that
  ends without an exception leaves every queue empty, so a microtask that runs
  after it changes nothing: the calls made before the first one ran are applied
  together, by that one.
\<close>

theorem setState_schedules:
  "memoryCells (setState i ch s) = map (enqueue i ch) (memoryCells s) \<and>
   memoryCells (setState_hook i ch h) = map (enqueue i ch) (memoryCells h) \<and>
   enqueue i ch (StateCell c :: ('v, 'w) memory_cell) =
     (if cid c = i then StateCell (c\<lparr>stateChanges := stateChanges c @ [ch]\<rparr>) else StateCell c) \<and>
   enqueue i ch (EffectCell ec :: ('v, 'w) memory_cell) = EffectCell ec \<and>
   enqueue i ch (MemoCell mc :: ('v, 'w) memory_cell) = MemoCell mc \<and>
   microtasks (setState i ch s) =
     (if activeHost s = Some (self s) then microtasks s else microtasks s + 1) \<and>
   microtasks (snd (invokeAgent agent s)) = microtasks s \<and>
   (invokeAgent agent s = (q, s2) \<longrightarrow>
      activeHost (snd (applyStateChanges (resetSoft s2))) = None) \<and>
   (activeHost s \<noteq> Some (self s) \<longrightarrow>
      microtasks (snd (runEffect (Effect f) s)) = microtasks s + length (fst (snd (f (world s)))) \<and>
      microtasks (snd (runDispose (Dispose d) s)) = microtasks s + length (fst (snd (d (world s)))) \<and>
      activeHost (snd (runEffect (Effect f) s)) \<noteq> Some (self (snd (runEffect (Effect f) s))) \<and>
      activeHost (snd (runDispose (Dispose d) s)) \<noteq> Some (self (snd (runDispose (Dispose d) s)))) \<and>
   (render fuel agent listener a s = Some (r1, t1) \<longrightarrow>
      microtasks (setState i ch t1) = microtasks t1 + 1) \<and>
   microtasks (setState_hook i ch h) =
     (if rendering h then microtasks h else microtasks h + 1) \<and>
   (renderInner_hook fuel hook hookListener h = Some (r, u) \<longrightarrow>
      microtasks u = microtasks h \<and> \<not> rendering u) \<and>
   (renderAsync fuel agent listener (s :: ('a, 'v, 'w) host) = Some (None, t)
      \<longrightarrow> renderAsync fuel agent listener t = Some (None, t)) \<and>
   (renderAsynchronously fuel hook hookListener (h :: ('a, 'v, 'w) hook_host) = Some (None, k)
      \<longrightarrow> renderAsynchronously fuel hook hookListener k = Some (None, k))"
proof -
  have 1: "renderAsync fuel agent listener t = Some (None, t)"
    if "renderAsync fuel agent listener s = Some (None, t)"
    using drained_applyStateChanges [OF renderAsync_drained [OF that]]
    by (simp add: renderAsync_def)
  have 2: "microtasks u = microtasks h \<and> \<not> rendering u"
    if "renderInner_hook fuel hook hookListener h = Some (r, u)"
    using that by (rule renderInner_hook_microtasks)
  have 3: "microtasks (snd (invokeAgent agent s)) = microtasks s"
    by (rule invokeAgent_microtasks)
  have 4: "activeHost (snd (applyStateChanges (resetSoft s2))) = None"
    if "invokeAgent agent s = (q, s2)"
    using that by (rule settle_active)
  have 5: "microtasks (snd (runEffect (Effect f) s)) = microtasks s + length (fst (snd (f (world s)))) \<and>
      microtasks (snd (runDispose (Dispose d) s)) = microtasks s + length (fst (snd (d (world s)))) \<and>
      activeHost (snd (runEffect (Effect f) s)) \<noteq> Some (self (snd (runEffect (Effect f) s))) \<and>
      activeHost (snd (runDispose (Dispose d) s)) \<noteq> Some (self (snd (runDispose (Dispose d) s)))"
    if na: "activeHost s \<noteq> Some (self s)"
  proof -
    have "microtasks (setStates cs (s\<lparr>world := w\<rparr>)) = microtasks s + length cs" for cs w
      using setStates_microtasks [of "s\<lparr>world := w\<rparr>" cs] na by simp
    then have m: "microtasks (snd (runEffect (Effect f) s)) =
        microtasks s + length (fst (snd (f (world s))))"
      "microtasks (snd (runDispose (Dispose d) s)) =
        microtasks s + length (fst (snd (d (world s))))"
      by (simp_all split: prod.splits)
    have "sameOutside s (snd (runEffect (Effect f) s))" "sameOutside s (snd (runDispose (Dispose d) s))"
      using runEffect_same [of s s "Effect f"] runDispose_same [of s s "Dispose d"] by simp_all
    then show ?thesis using m na by (simp add: sameOutside_def)
  qed
  have 6: "microtasks (setState i ch t1) = microtasks t1 + 1"
    if "render fuel agent listener a s = Some (r1, t1)"
    using render_active [OF that] by (simp add: setState_def)
  have 7: "renderAsynchronously fuel hook hookListener k = Some (None, k)"
    if "renderAsynchronously fuel hook hookListener h = Some (None, k)"
    using that by (rule renderAsynchronously_again)
  have 8: "memoryCells (setState i ch s) = map (enqueue i ch) (memoryCells s) \<and>
   memoryCells (setState_hook i ch h) = map (enqueue i ch) (memoryCells h) \<and>
   enqueue i ch (StateCell c :: ('v, 'w) memory_cell) =
     (if cid c = i then StateCell (c\<lparr>stateChanges := stateChanges c @ [ch]\<rparr>) else StateCell c) \<and>
   enqueue i ch (EffectCell ec :: ('v, 'w) memory_cell) = EffectCell ec \<and>
   enqueue i ch (MemoCell mc :: ('v, 'w) memory_cell) = MemoCell mc \<and>
   microtasks (setState i ch s) =
     (if activeHost s = Some (self s) then microtasks s else microtasks s + 1) \<and>
   microtasks (setState_hook i ch h) =
     (if rendering h then microtasks h else microtasks h + 1)"
    by (simp add: setState_def setState_hook_def)
  show ?thesis using 1 2 3 4 5 6 7 8 by blast
qed

theorem setState_schedules_witness:
  "microtasks idleState = 0 \<and> activeHost idleState \<noteq> Some (self idleState) \<and>
   microtasks twiceSet = 2 \<and>
   microtasks (setState 0 (NewState 5) (idleState\<lparr>activeHost := Some 0\<rparr>)) = 0 \<and>
   memoryCells (snd (invokeAgent counter (newHost 0 ()\<lparr>args := Some ()\<rparr>))) =
     [StateCell \<lparr>cid = 0, state = 0, stateChanges = [NewState 1]\<rparr>] \<and>
   microtasks (snd (invokeAgent counter (newHost 0 ()\<lparr>args := Some ()\<rparr>))) = 0 \<and>
   agentLog (snd (the (render 5 counter quiet () (newHost 0 ())))) = [Inr 0, Inr 1, Inr 2] \<and>
   microtasks (snd (the (render 5 counter quiet () (newHost 0 ())))) = 0 \<and>
   activeHost (snd (applyStateChanges (resetSoft
     (snd (invokeAgent counter (newHost 0 ()\<lparr>args := Some ()\<rparr>)))))) = None \<and>
   microtasks (snd (runEffect (Effect (\<lambda>w. (Inr None, [(0, NewState 1), (0, NewState 2)], w)))
     idleState)) = 2 \<and>
   microtasks (snd (runDispose (Dispose (\<lambda>w. (None, [(0, NewState 1)], w))) idleState)) = 1 \<and>
   render 1 stateAgent quiet () (newHost 0 ()) \<noteq> None \<and>
   microtasks (setState 0 (NewState 5) idleState) = 1 \<and>
   renderAsync 1 stateAgent quiet twiceSet \<noteq> None \<and>
   fst (the (renderAsync 1 stateAgent quiet twiceSet)) = None \<and>
   events (snd (the (renderAsync 1 stateAgent quiet twiceSet))) =
     [ValueEvent 0 False False, ValueEvent 7 True False] \<and>
   renderAsync 1 stateAgent quiet (snd (the (renderAsync 1 stateAgent quiet twiceSet))) =
     Some (None, snd (the (renderAsync 1 stateAgent quiet twiceSet))) \<and>
   microtasks idleHook = 0 \<and> \<not> rendering idleHook \<and> microtasks twiceSetHook = 2 \<and>
   microtasks (setState_hook 0 (NewState 5) (idleHook\<lparr>rendering := True\<rparr>)) = 0 \<and>
   renderInner_hook 2 effectSetter quiet_hook startHook \<noteq> None \<and>
   hookEvents (snd (the (renderInner_hook 2 effectSetter quiet_hook startHook))) =
     [RenderingEvent 1 [0]] \<and>
   microtasks (snd (the (renderInner_hook 2 effectSetter quiet_hook startHook))) =
     microtasks startHook \<and>
   \<not> rendering (snd (the (renderInner_hook 2 effectSetter quiet_hook startHook))) \<and>
   renderAsynchronously 1 stateAgent quiet_hook twiceSetHook \<noteq> None \<and>
   fst (the (renderAsynchronously 1 stateAgent quiet_hook twiceSetHook)) = None \<and>
   hookEvents (snd (the (renderAsynchronously 1 stateAgent quiet_hook twiceSetHook))) =
     [RenderingEvent 0 [], RenderingEvent 7 []] \<and>
   renderAsynchronously 1 stateAgent quiet_hook
       (snd (the (renderAsynchronously 1 stateAgent quiet_hook twiceSetHook))) =
     Some (None, snd (the (renderAsynchronously 1 stateAgent quiet_hook twiceSetHook)))"
proof -
  let ?s = "newHost 0 ()\<lparr>args := Some ()\<rparr> :: (unit, nat, unit) host"
  let ?f = "\<lambda>w :: unit. (Inr None :: nat error + (nat, unit) dispose_fn option,
    [(0 :: nat, NewState (1 :: nat)), (0, NewState 2)], w)"
  let ?d = "\<lambda>w :: unit. (None :: nat error option, [(0 :: nat, NewState (1 :: nat))], w)"
  have a: "microtasks idleState = 0" "activeHost idleState \<noteq> Some (self idleState)"
    "self idleState = 0"
    unfolding idleState_def by (simp_all add: run stateAgent_def quiet_def)
  have b: "microtasks twiceSet = 2"
    unfolding twiceSet_def using setState_schedules [of 0 _ idleState]
      setState_schedules [of 0 _ "setState 0 (NewState 5) idleState"] a
    by (simp add: setState_def)
  have c: "microtasks (setState 0 (NewState 5) (idleState\<lparr>activeHost := Some 0\<rparr>)) = 0"
    using setState_schedules [of 0 "NewState 5" "idleState\<lparr>activeHost := Some 0\<rparr>"] a by simp
  have ia: "memoryCells (snd (invokeAgent counter ?s)) =
     [StateCell \<lparr>cid = 0, state = 0, stateChanges = [NewState 1]\<rparr>]"
    by (simp add: run counter_def)
  have ib: "microtasks (snd (invokeAgent counter ?s)) = 0"
    using setState_schedules [where agent = counter and s = ?s, THEN conjunct2, THEN conjunct2,
        THEN conjunct2, THEN conjunct2, THEN conjunct2, THEN conjunct2, THEN conjunct1]
    by (simp add: newHost_def)
  have ic: "agentLog (snd (the (render 5 counter quiet () (newHost 0 ())))) = [Inr 0, Inr 1, Inr 2]"
    "microtasks (snd (the (render 5 counter quiet () (newHost 0 ())))) = 0"
    by (simp_all add: run counter_def quiet_def)
  obtain q s2 where q: "invokeAgent counter ?s = (q, s2)" by (cases "invokeAgent counter ?s")
  have id: "activeHost (snd (applyStateChanges (resetSoft (snd (invokeAgent counter ?s))))) = None"
    using setState_schedules [where agent = counter and s = ?s and q = q and ?s2.0 = s2,
        THEN conjunct2, THEN conjunct2, THEN conjunct2, THEN conjunct2, THEN conjunct2,
        THEN conjunct2, THEN conjunct2, THEN conjunct1] q
    by simp
  have ie: "microtasks (snd (runEffect (Effect ?f) idleState)) = 2"
    "microtasks (snd (runDispose (Dispose ?d) idleState)) = 1"
    using setState_schedules [where s = idleState and f = ?f and d = ?d,
        THEN conjunct2, THEN conjunct2, THEN conjunct2, THEN conjunct2, THEN conjunct2,
        THEN conjunct2, THEN conjunct2, THEN conjunct2, THEN conjunct1] a
    by simp_all
  have rn: "render 1 stateAgent quiet () (newHost 0 ()) \<noteq> None"
    by (simp add: run stateAgent_def quiet_def)
  then obtain r1 where r1: "render 1 stateAgent quiet () (newHost 0 ()) = Some (r1, idleState)"
    unfolding idleState_def by (cases "render 1 stateAgent quiet () (newHost 0 ())") auto
  have ig: "microtasks (setState 0 (NewState 5) idleState) = 1"
    using setState_schedules [where s = "newHost 0 ()" and fuel = 1 and agent = stateAgent
        and listener = quiet and a = "()" and ?r1.0 = r1 and ?t1.0 = idleState and i = 0
        and ch = "NewState 5",
        THEN conjunct2, THEN conjunct2, THEN conjunct2, THEN conjunct2, THEN conjunct2,
        THEN conjunct2, THEN conjunct2, THEN conjunct2, THEN conjunct2, THEN conjunct1] r1 a
    by simp
  have d: "renderAsync 1 stateAgent quiet twiceSet \<noteq> None"
    "fst (the (renderAsync 1 stateAgent quiet twiceSet)) = None"
    "events (snd (the (renderAsync 1 stateAgent quiet twiceSet))) =
       [ValueEvent 0 False False, ValueEvent 7 True False]"
    unfolding twiceSet_def idleState_def by (simp_all add: run stateAgent_def quiet_def)
  then obtain t where t: "renderAsync 1 stateAgent quiet twiceSet = Some (None, t)"
    by (cases "renderAsync 1 stateAgent quiet twiceSet") auto
  have e: "renderAsync 1 stateAgent quiet t = Some (None, t)"
    using setState_schedules [where s = twiceSet and fuel = 1 and agent = stateAgent
        and listener = quiet and t = t] t by simp
  have ha: "microtasks idleHook = 0" "\<not> rendering idleHook"
    unfolding idleHook_def by (simp_all add: run run_hook stateAgent_def quiet_hook_def)
  have hb: "microtasks twiceSetHook = 2"
    unfolding twiceSetHook_def using ha by (simp add: setState_hook_def)
  have hc: "microtasks (setState_hook 0 (NewState 5) (idleHook\<lparr>rendering := True\<rparr>)) = 0"
    using ha by (simp add: setState_hook_def)
  have hd: "renderInner_hook 2 effectSetter quiet_hook startHook \<noteq> None"
    "hookEvents (snd (the (renderInner_hook 2 effectSetter quiet_hook startHook))) =
       [RenderingEvent 1 [0]]"
    unfolding startHook_def by (simp_all add: run run_hook effectSetter_def quiet_hook_def)
  then obtain r u where u: "renderInner_hook 2 effectSetter quiet_hook startHook = Some (r, u)"
    by (cases "renderInner_hook 2 effectSetter quiet_hook startHook") auto
  have he: "microtasks u = microtasks startHook" "\<not> rendering u"
    using setState_schedules [where h = startHook and fuel = 2 and hook = effectSetter
        and hookListener = quiet_hook and r = r and u = u] u by simp_all
  have hf: "renderAsynchronously 1 stateAgent quiet_hook twiceSetHook \<noteq> None"
    "fst (the (renderAsynchronously 1 stateAgent quiet_hook twiceSetHook)) = None"
    "hookEvents (snd (the (renderAsynchronously 1 stateAgent quiet_hook twiceSetHook))) =
       [RenderingEvent 0 [], RenderingEvent 7 []]"
    unfolding twiceSetHook_def idleHook_def
    by (simp_all add: run run_hook stateAgent_def quiet_hook_def)
  then obtain w where w: "renderAsynchronously 1 stateAgent quiet_hook twiceSetHook = Some (None, w)"
    by (cases "renderAsynchronously 1 stateAgent quiet_hook twiceSetHook") auto
  have hg: "renderAsynchronously 1 stateAgent quiet_hook w = Some (None, w)"
    using setState_schedules [where h = twiceSetHook and fuel = 1 and hook = stateAgent
        and hookListener = quiet_hook and k = w] w by simp
  show ?thesis using a b c ia ib ic id ie rn ig d t e ha hb hc hd u he hf w hg by simp
qed

text \<open>
  C3 as stated fails in \<^verbatim>\<open>index.ts\<close>: a setter called by an effect, while \<open>render\<close> is
  running, queues a re-render microtask, because the Host is the active Host only
  during the invocation of the agent. That microtask later finds nothing to apply.
\<close>

theorem setState_in_effect_counterexample:
  "microtasks (newHost 0 () :: (unit, nat, unit) host) = 0 \<and>
   fst (the (render 2 effectSetter quiet () (newHost 0 ()))) = None \<and>
   events (snd (the (render 2 effectSetter quiet () (newHost 0 ())))) =
     [ValueEvent 0 False True, ValueEvent 1 False False] \<and>
   microtasks (snd (the (render 2 effectSetter quiet () (newHost 0 ())))) = 1"
  by (simp add: run effectSetter_def quiet_def)

text \<open>
  C4. A re-render microtask first applies the pending state changes. When that reports
  no change it ends there: no event, no invocation of the agent. When it reports a
  change the render procedure runs with \<open>async = True\<close>, and every event the microtask
  emits carries that flag.
\<close>

theorem renderAsync_law:
  "(\<not> fst (applyStateChanges s) \<longrightarrow>
      renderAsync fuel agent listener s = Some (None, snd (applyStateChanges s)) \<and>
      events (snd (applyStateChanges s)) = events s \<and>
      agentLog (snd (applyStateChanges s)) = agentLog s) \<and>
   (fst (applyStateChanges s) \<longrightarrow>
      renderAsync fuel agent listener s =
        (case renderInner fuel agent listener True (snd (applyStateChanges s)) of
           None \<Rightarrow> None
         | Some (None, t) \<Rightarrow> Some (None, t)
         | Some (Some e, t) \<Rightarrow> Some (catchError listener True e t))) \<and>
   (renderAsync fuel agent listener s = Some (r, t) \<longrightarrow>
      (\<exists>new. events t = events s @ new \<and> list_all isAsync new))"
proof -
  obtain b s0 where ap: "applyStateChanges s = (b, s0)" by (cases "applyStateChanges s")
  have s0: "events s0 = events s" "agentLog s0 = agentLog s"
    using applyStateChanges_keeps [of s] ap by (simp_all add: sameOutside_def)
  have 1: "\<not> fst (applyStateChanges s) \<longrightarrow>
      renderAsync fuel agent listener s = Some (None, snd (applyStateChanges s)) \<and>
      events (snd (applyStateChanges s)) = events s \<and>
      agentLog (snd (applyStateChanges s)) = agentLog s"
    using ap s0 by (simp add: renderAsync_def)
  have 2: "fst (applyStateChanges s) \<longrightarrow>
      renderAsync fuel agent listener s =
        (case renderInner fuel agent listener True (snd (applyStateChanges s)) of
           None \<Rightarrow> None
         | Some (None, t) \<Rightarrow> Some (None, t)
         | Some (Some e, t) \<Rightarrow> Some (catchError listener True e t))"
    using ap by (simp add: renderAsync_def)
  have 3: "\<exists>new. events t = events s @ new \<and> list_all isAsync new"
    if ra: "renderAsync fuel agent listener s = Some (r, t)"
  proof (cases b)
    case False
    then have "t = s0" using ra ap by (simp add: renderAsync_def)
    then show ?thesis using s0 by simp
  next
    case True
    then obtain r1 s1 where inner: "renderInner fuel agent listener True s0 = Some (r1, s1)"
      using ra ap by (auto simp: renderAsync_def split: option.splits)
    obtain new where new: "events s1 = events s @ new" "list_all isAsync new"
      using stops_events [OF renderInner_stops [OF inner]] s0 by auto
    show ?thesis
    proof (cases r1)
      case None
      then have "t = s1" using ra ap True inner by (simp add: renderAsync_def)
      then show ?thesis using new by simp
    next
      case (Some e)
      then have "catchError listener True e s1 = (r, t)"
        using ra ap True inner by (simp add: renderAsync_def)
      then have "events t = events s1 @ [ErrorEvent e True]"
        by (rule catchError_events)
      then show ?thesis using new by auto
    qed
  qed
  show ?thesis using 1 2 3 by blast
qed

theorem renderAsync_law_witness:
  "\<not> fst (applyStateChanges idleState) \<and>
   renderAsync 1 stateAgent quiet idleState = Some (None, snd (applyStateChanges idleState)) \<and>
   events (snd (the (renderAsync 1 stateAgent quiet idleState))) = [ValueEvent 0 False False] \<and>
   agentLog (snd (the (renderAsync 1 stateAgent quiet idleState))) = [Inr 0] \<and>
   fst (applyStateChanges (setState 0 (NewState 5) idleState)) \<and>
   renderAsync 1 stateAgent quiet (setState 0 (NewState 5) idleState) \<noteq> None \<and>
   events (snd (the (renderAsync 1 stateAgent quiet (setState 0 (NewState 5) idleState)))) =
     [ValueEvent 0 False False] @ [ValueEvent 5 True False] \<and>
   list_all isAsync [ValueEvent (5 :: nat) True False]"
proof -
  have a: "\<not> fst (applyStateChanges idleState)"
    unfolding idleState_def by (simp add: run stateAgent_def quiet_def)
  have ev: "events idleState = [ValueEvent 0 False False]" "agentLog idleState = [Inr 0]"
    unfolding idleState_def by (simp_all add: run stateAgent_def quiet_def)
  note th1 = renderAsync_law [of idleState 1 stateAgent quiet]
  have b: "renderAsync 1 stateAgent quiet idleState = Some (None, snd (applyStateChanges idleState))"
    "events (snd (applyStateChanges idleState)) = events idleState"
    "agentLog (snd (applyStateChanges idleState)) = agentLog idleState"
    using th1 a by simp_all
  have c: "fst (applyStateChanges (setState 0 (NewState 5) idleState))"
    unfolding idleState_def by (simp add: run stateAgent_def quiet_def)
  have d: "renderAsync 1 stateAgent quiet (setState 0 (NewState 5) idleState) \<noteq> None"
    unfolding idleState_def by (simp add: run stateAgent_def quiet_def)
  have e: "events (snd (the (renderAsync 1 stateAgent quiet (setState 0 (NewState 5) idleState)))) =
     [ValueEvent 0 False False] @ [ValueEvent 5 True False]"
    unfolding idleState_def by (simp add: run stateAgent_def quiet_def)
  show ?thesis using a b ev c d e by simp
qed

text \<open>
  C5, as amended. At an effect slot that already holds a cell, \<open>useEffect\<close> replaces the
  stored effect and list and marks the cell outdated if and only if the comparator
  rejects the lists (the supplied list is undefined, or no previous list existed,
  or the lists differ in length or in an element) or the cell is still marked
  outdated; otherwise it leaves the cell untouched. When the effects are
  triggered, a cell that is not outdated is passed over, and an outdated one has
  its previous cleanup invoked and discarded, and then its effect invoked.
\<close>

theorem useEffect_rerun:
  "(read s = Some (EffectCell c) \<longrightarrow>
      useEffect eff deps s =
        (None,
         movePointer
           (if \<not> areDependenciesEqual (dependencies c) deps \<or> outdated c
            then s\<lparr>memoryCells := (memoryCells s)[pointer s :=
                     EffectCell (c\<lparr>outdated := True, effect := eff, dependencies := deps\<rparr>)]\<rparr>
            else s))) \<and>
   (areDependenciesEqual (dependencies c) deps \<longleftrightarrow>
      (\<exists>xs ys. dependencies c = Some xs \<and> deps = Some ys \<and> length xs = length ys \<and>
         (\<forall>i < length xs. xs ! i = ys ! i))) \<and>
   (memoryCells s ! i = EffectCell c \<and> \<not> outdated c \<longrightarrow>
      runEffects (i # is) s = runEffects is s) \<and>
   invokeCleanup i c s =
     (case dispose c of
        None \<Rightarrow> (None, s)
      | Some d \<Rightarrow>
          (case runDispose d s of
             (r, s1) \<Rightarrow>
               (r, s1\<lparr>memoryCells :=
                      (memoryCells s1)[i := EffectCell (c\<lparr>dispose := None\<rparr>)]\<rparr>))) \<and>
   (memoryCells s ! i = EffectCell c \<and> outdated c \<longrightarrow>
      runEffects (i # is) s =
        (case invokeCleanup i c s of
           (Some e, s1) \<Rightarrow> (Some e, s1)
         | (None, s1) \<Rightarrow>
             (case runEffect (effect c) s1 of
                (Inl e, s2) \<Rightarrow> (Some e, s2)
              | (Inr d, s2) \<Rightarrow>
                  runEffects is
                    (s2\<lparr>memoryCells := (memoryCells s2)[i :=
                          EffectCell (c\<lparr>dispose := d, outdated := False\<rparr>)]\<rparr>))))"
proof -
  have "read s = Some (EffectCell c) \<longrightarrow>
      useEffect eff deps s =
        (None,
         movePointer
           (if \<not> areDependenciesEqual (dependencies c) deps \<or> outdated c
            then s\<lparr>memoryCells := (memoryCells s)[pointer s :=
                     EffectCell (c\<lparr>outdated := True, effect := eff, dependencies := deps\<rparr>)]\<rparr>
            else s))"
    by (simp add: useEffect_def)
  then show ?thesis
    using areDependenciesEqual_iff [of "dependencies c" deps] by (simp add: invokeCleanup_def)
qed

theorem useEffect_rerun_witness:
  "read effectSlot =
     Some (EffectCell \<lparr>outdated = False, effect = logging 0, dependencies = Some [0],
                        dispose = None\<rparr>) \<and>
   useEffect (logging 5) (Some [0]) effectSlot = (None, movePointer effectSlot) \<and>
   effectOutdated (read ((snd (useEffect (logging 5) (Some [1]) effectSlot))\<lparr>pointer := 1\<rparr>)) \<and>
   effectOutdated (read ((snd (useEffect (logging 5) None effectSlot))\<lparr>pointer := 1\<rparr>)) \<and>
   memoryCells effectSlot ! 1 =
     EffectCell \<lparr>outdated = False, effect = logging 0, dependencies = Some [0], dispose = None\<rparr> \<and>
   world (snd (runEffects [1] effectSlot)) = [0] \<and>
   world (snd (runEffects [1] (snd (useEffect (logging 5) (Some [1]) effectSlot)))) = [0, 5]"
proof -
  let ?c = "\<lparr>outdated = False, effect = logging 0, dependencies = Some [0 :: nat], dispose = None\<rparr>
    :: (nat, nat list) effect_cell"
  have rd: "read effectSlot = Some (EffectCell ?c)"
    unfolding effectSlot_def afterFirstRerun_def
    by (simp add: run rerunAgent_def quiet_def logging_def)
  have cell: "memoryCells effectSlot ! 1 = EffectCell ?c"
    unfolding effectSlot_def afterFirstRerun_def
    by (simp add: run rerunAgent_def quiet_def logging_def)
  have w: "world effectSlot = [0]" "pointer effectSlot = 1" "length (memoryCells effectSlot) = 2"
    unfolding effectSlot_def afterFirstRerun_def
    by (simp_all add: run rerunAgent_def quiet_def logging_def)
  have same: "useEffect (logging 5) (Some [0]) effectSlot = (None, movePointer effectSlot)"
    using useEffect_rerun [of effectSlot ?c "logging 5" "Some [0]"] rd by simp
  have diff: "useEffect (logging 5) (Some [1]) effectSlot =
      (None, movePointer (effectSlot\<lparr>memoryCells := (memoryCells effectSlot)[pointer effectSlot :=
         EffectCell (?c\<lparr>outdated := True, effect := logging 5, dependencies := Some [1]\<rparr>)]\<rparr>))"
    using useEffect_rerun [of effectSlot ?c "logging 5" "Some [1]"] rd by simp
  have undef: "useEffect (logging 5) None effectSlot =
      (None, movePointer (effectSlot\<lparr>memoryCells := (memoryCells effectSlot)[pointer effectSlot :=
         EffectCell (?c\<lparr>outdated := True, effect := logging 5, dependencies := None\<rparr>)]\<rparr>))"
    using useEffect_rerun [of effectSlot ?c "logging 5" None] rd by simp
  have skip: "runEffects [1] effectSlot = runEffects [] effectSlot"
    using useEffect_rerun [of effectSlot ?c _ _ 1 "[]"] cell by simp
  have run5: "world (snd (runEffects [1] (snd (useEffect (logging 5) (Some [1]) effectSlot)))) = [0, 5]"
    using diff w by (simp add: movePointer_def logging_def invokeCleanup_def)
  show ?thesis
    using rd same diff undef skip run5 w cell
    by (simp add: movePointer_def read_def)
qed

text \<open>
  C5 as stated fails. In the second \<open>render\<close> of \<open>rerunAgent\<close> the first pass supplies a
  new list and sets the state, so a second pass follows before the effects are
  triggered. At that second pass the supplied list equals the stored one, yet the
  cell, still outdated, takes the effect closure of the second pass, and that is
  the closure which runs; had the cell been left untouched, the closure stored
  by the first pass would have run.
\<close>

theorem effect_rerun_counterexample:
  "effectDependencies (read secondPass) = Some [1] \<and>
   areDependenciesEqual (effectDependencies (read secondPass)) (Some [1]) \<and>
   effectOutdated (read secondPass) \<and>
   world (snd (triggerEffects (snd (useEffect (logging 1) (Some [1]) secondPass)))) = [0, 1] \<and>
   world (snd (triggerEffects (movePointer secondPass))) = [0, 0] \<and>
   world (snd (the (render 2 rerunAgent quiet 1 afterFirstRerun))) = [0, 1]"
  unfolding secondPass_def afterFirstRerun_def
  by (simp add: run rerunAgent_def quiet_def logging_def)

text \<open>
  C6. At a memo slot whose stored list equals the supplied one, \<open>useMemo\<close> returns the
  stored value and changes nothing but the cursor, whatever the producer is: the
  producer is not invoked. It is invoked, once, when the lists differ and on the
  first call at the slot. The value the producer returned on the first call is
  what a later call at that slot, with a list equal to the first, returns.
\<close>

theorem useMemo_stable:
  "(read s = Some (MemoCell c) \<and>
      areDependenciesEqual (Some (memo_dependencies c)) (Some deps)
      \<longrightarrow> useMemo createValue deps s = (Inr (memo_value c), movePointer s)) \<and>
   (read s = Some (MemoCell c) \<and>
      \<not> areDependenciesEqual (Some (memo_dependencies c)) (Some deps)
      \<longrightarrow> useMemo createValue deps s =
          (case createValue (world s) of
             (Inl e, w) \<Rightarrow> (Inl e, s\<lparr>world := w\<rparr>)
           | (Inr v, w) \<Rightarrow>
               (Inr v,
                movePointer
                  (s\<lparr>world := w,
                     memoryCells := (memoryCells s)[pointer s :=
                       MemoCell (c\<lparr>memo_value := v, memo_dependencies := deps\<rparr>)]\<rparr>)))) \<and>
   (read s = None
      \<longrightarrow> useMemo createValue deps s =
          (case createValue (world s) of
             (Inl e, w) \<Rightarrow> (Inl e, s\<lparr>world := w\<rparr>)
           | (Inr v, w) \<Rightarrow>
               (Inr v,
                movePointer
                  (writeCell (MemoCell \<lparr>memo_value = v, memo_dependencies = deps\<rparr>)
                     (s\<lparr>world := w\<rparr>))))) \<and>
   (read s = None \<and> pointer s \<le> length (memoryCells s) \<and>
      createValue (world s) = (Inr x, y) \<and>
      areDependenciesEqual (Some deps) (Some deps')
      \<longrightarrow> useMemo createValue' deps'
            ((snd (useMemo createValue deps s))\<lparr>pointer := pointer s\<rparr>) =
          (Inr x, snd (useMemo createValue deps s)))"
proof -
  have "useMemo createValue' deps'
            ((snd (useMemo createValue deps s))\<lparr>pointer := pointer s\<rparr>) =
          (Inr x, snd (useMemo createValue deps s))"
    if "read s = None" "pointer s \<le> length (memoryCells s)"
      "createValue (world s) = (Inr x, y)" "areDependenciesEqual (Some deps) (Some deps')"
    using that by (rule useMemo_first_then_equal)
  then show ?thesis by (simp add: useMemo_def)
qed

theorem useMemo_stable_witness:
  "read afterFirstMemo = Some (MemoCell \<lparr>memo_value = 40, memo_dependencies = [4]\<rparr>) \<and>
   areDependenciesEqual (Some [4 :: nat]) (Some [4]) \<and>
   useMemo (\<lambda>w. (Inr (40 + w), w + 1)) [4] afterFirstMemo = (Inr 40, movePointer afterFirstMemo) \<and>
   world (snd (useMemo (\<lambda>w. (Inr (40 + w), w + 1)) [4] afterFirstMemo)) = 1 \<and>
   \<not> areDependenciesEqual (Some [4 :: nat]) (Some [5]) \<and>
   fst (useMemo (\<lambda>w. (Inr (50 + w), w + 1)) [5] afterFirstMemo) = Inr 51 \<and>
   world (snd (useMemo (\<lambda>w. (Inr (50 + w), w + 1)) [5] afterFirstMemo)) = 2 \<and>
   read (newHost 0 0 :: (nat, nat, nat) host) = None \<and>
   pointer (newHost 0 0 :: (nat, nat, nat) host) \<le> length (memoryCells (newHost 0 0 :: (nat, nat, nat) host)) \<and>
   fst (useMemo (\<lambda>w. (Inr (40 + w), w + 1)) [4] (newHost 0 0 :: (nat, nat, nat) host)) = Inr 40 \<and>
   useMemo (\<lambda>w. (Inr (90 + w), w + 1)) [4]
       ((snd (useMemo (\<lambda>w. (Inr (40 + w), w + 1)) [4] (newHost 0 0 :: (nat, nat, nat) host)))
          \<lparr>pointer := 0\<rparr>) =
     (Inr 40, snd (useMemo (\<lambda>w. (Inr (40 + w), w + 1)) [4] (newHost 0 0)))"
proof -
  let ?n = "newHost 0 0 :: (nat, nat, nat) host"
  have rd: "read afterFirstMemo = Some (MemoCell \<lparr>memo_value = 40, memo_dependencies = [4]\<rparr>)"
    unfolding afterFirstMemo_def by (simp add: run memoAgent_def quiet_def)
  have w: "world afterFirstMemo = 1" unfolding afterFirstMemo_def by code_simp
  have eq: "areDependenciesEqual (Some [4 :: nat]) (Some [4])" by simp
  have ne: "\<not> areDependenciesEqual (Some [4 :: nat]) (Some [5])" by simp
  have r0: "read ?n = None" "pointer ?n \<le> length (memoryCells ?n)" "pointer ?n = 0" "world ?n = 0"
    by (simp_all add: read_def newHost_def)
  note th = useMemo_stable [of afterFirstMemo "\<lparr>memo_value = 40, memo_dependencies = [4]\<rparr>"]
  have a: "useMemo (\<lambda>w. (Inr (40 + w), w + 1)) [4] afterFirstMemo = (Inr 40, movePointer afterFirstMemo)"
    using th [of "[4]" "\<lambda>w. (Inr (40 + w), w + 1)"] rd eq by simp
  have b: "fst (useMemo (\<lambda>w. (Inr (50 + w), w + 1)) [5] afterFirstMemo) = Inr 51"
    "world (snd (useMemo (\<lambda>w. (Inr (50 + w), w + 1)) [5] afterFirstMemo)) = 2"
    using th [of "[5]" "\<lambda>w. (Inr (50 + w), w + 1)"] rd ne w by (simp_all add: movePointer_def)
  note tn = useMemo_stable [where s = ?n and deps = "[4]"
      and createValue = "\<lambda>w. (Inr (40 + w), w + 1)"]
  have c: "fst (useMemo (\<lambda>w. (Inr (40 + w), w + 1)) [4] ?n) = Inr 40"
    using tn r0 by simp
  have d: "useMemo (\<lambda>w. (Inr (90 + w), w + 1)) [4]
       ((snd (useMemo (\<lambda>w. (Inr (40 + w), w + 1)) [4] ?n))\<lparr>pointer := 0\<rparr>) =
     (Inr 40, snd (useMemo (\<lambda>w. (Inr (40 + w), w + 1)) [4] ?n))"
    using tn [where x = 40 and y = 1 and deps' = "[4]"
        and createValue' = "\<lambda>w. (Inr (90 + w), w + 1)",
        THEN conjunct2, THEN conjunct2, THEN conjunct2] r0 eq
    by simp
  show ?thesis using rd eq a b ne r0 c d w by (simp add: movePointer_def)
qed

text \<open>
  C7. An agent whose body never calls the state primitive, on a Host that holds no
  state cell (a new Host, or the same Host later), rendered any number of times:
  every call returns (one pass suffices), and when in each call the agent returns
  and no effect or cleanup throws, the listener is handed exactly one value event
  per call, with \<open>intermediate = False\<close> and \<open>async = False\<close>, carrying the value the
  agent returned in that call.
\<close>

theorem stateless_one_value_event:
  assumes "noStateCells s" and "0 < fuel"
  shows "\<exists>t. renderAll fuel (\<lambda>a. withoutState (body a)) listener as s = Some t \<and>
      (neverThrows fuel (\<lambda>a. withoutState (body a)) listener as s \<longrightarrow>
         (\<exists>vs new. length vs = length as \<and> agentLog t = agentLog s @ map Inr vs \<and>
            events t = events s @ new \<and>
            filter isValueEvent new = map (\<lambda>v. ValueEvent v False False) vs))"
proof -
  obtain k where k: "fuel = Suc k" using assms(2) by (cases fuel) auto
  obtain t where t: "renderAll fuel (\<lambda>a. withoutState (body a)) listener as s = Some t"
    using renderAll_total [OF refl assms(1), of k body listener as] k by blast
  have "\<exists>vs new. length vs = length as \<and> agentLog t = agentLog s @ map Inr vs \<and>
      events t = events s @ new \<and>
      filter isValueEvent new = map (\<lambda>v. ValueEvent v False False) vs"
    if "neverThrows fuel (\<lambda>a. withoutState (body a)) listener as s"
    using renderAll_stateless [OF refl assms(1), of k body listener as] that k t by auto
  then show ?thesis using t by blast
qed

theorem stateless_one_value_event_witness:
  "noStateCells (newHost 0 0 :: (nat, nat, nat) host) \<and> (0 :: nat) < 1 \<and>
   neverThrows 1 (\<lambda>a. withoutState (memoEffect a)) quiet [4, 4, 5] (newHost 0 0) \<and>
   renderAll 1 (\<lambda>a. withoutState (memoEffect a)) quiet [4, 4, 5] (newHost 0 0) \<noteq> None \<and>
   events (the (renderAll 1 (\<lambda>a. withoutState (memoEffect a)) quiet [4, 4, 5] (newHost 0 0))) =
     [ValueEvent 40 False False, ValueEvent 40 False False, ValueEvent 51 False False] \<and>
   microtasks (the (renderAll 1 (\<lambda>a. withoutState (memoEffect a)) quiet [4, 4, 5] (newHost 0 0))) = 3"
proof -
  have b: "noStateCells (newHost 0 0 :: (nat, nat, nat) host)"
    by (simp add: noStateCells_def newHost_def)
  have c: "neverThrows 1 (\<lambda>a. withoutState (memoEffect a)) quiet [4, 4, 5] (newHost 0 0)"
    by (simp add: run memoEffect_def quiet_def)
  have d: "events (the (renderAll 1 (\<lambda>a. withoutState (memoEffect a)) quiet [4, 4, 5] (newHost 0 0))) =
     [ValueEvent 40 False False, ValueEvent 40 False False, ValueEvent 51 False False]"
    "microtasks (the (renderAll 1 (\<lambda>a. withoutState (memoEffect a)) quiet [4, 4, 5] (newHost 0 0))) = 3"
    by (simp_all add: run memoEffect_def quiet_def)
  have "\<exists>t. renderAll 1 (\<lambda>a. withoutState (memoEffect a)) quiet [4, 4, 5] (newHost 0 0) = Some t \<and>
      (neverThrows 1 (\<lambda>a. withoutState (memoEffect a)) quiet [4, 4, 5] (newHost 0 0) \<longrightarrow>
         (\<exists>vs new. length vs = length [4 :: nat, 4, 5] \<and>
            agentLog t = agentLog (newHost 0 0 :: (nat, nat, nat) host) @ map Inr vs \<and>
            events t = events (newHost 0 0 :: (nat, nat, nat) host) @ new \<and>
            filter isValueEvent new = map (\<lambda>v. ValueEvent v False False) vs))"
    using stateless_one_value_event [OF b, of 1 memoEffect quiet "[4, 4, 5]"] by simp
  then have "renderAll 1 (\<lambda>a. withoutState (memoEffect a)) quiet [4, 4, 5] (newHost 0 0) \<noteq> None"
    by auto
  then show ?thesis using b c d by simp
qed



text \<open>
  C9, as amended. When the listener throws on a value event emitted during a \<open>render\<close>
  call (the final one included), the render procedure ends with that value and
  \<open>render\<close> catches it: the hard reset empties the Memory and the listener is
  invoked once more, with the error event carrying that value and \<open>async = False\<close>.
  That second call is not protected: \<open>render\<close> ends the way it ends, so what the
  listener throws on the error event leaves \<open>render\<close>.
\<close>

theorem listener_throw_caught:
  assumes "renderInner fuel agent listener False (s\<lparr>args := Some a\<rparr>) = Some (r1, s1)"
    and "events s1 = events s @ evs @ [ev]"
    and "listener (events s @ evs) ev = Some e"
  shows "r1 = Some e \<and> isValueEvent ev \<and>
         render fuel agent listener a s =
           Some (listener (events s1) (ErrorEvent e False),
                 (resetHard s1)\<lparr>events := events s1 @ [ErrorEvent e False]\<rparr>) \<and>
         memoryCells (resetHard s1) = []"
proof -
  have st: "stops listener False (s\<lparr>args := Some a\<rparr>) [] r1 s1"
    using assms(1) by (rule renderInner_stops)
  have r1: "r1 = Some e \<and> isValueEvent ev"
    using st
  proof (cases rule: stops_cases)
    case (listener ws)
    then have "evs = intermediates False (butlast ws)" "ev = ValueEvent (last ws) False True"
      using assms(2) by simp_all
    then show ?thesis using listener(6) assms(3) by simp
  next
    case (agent ws e')
    then have "accepts listener (events s) (evs @ [ev])" using assms(2) by simp
    then show ?thesis using accepts_last assms(3) by fastforce
  next
    case (effects ws w e')
    then have "accepts listener (events s) (evs @ [ev])" using assms(2) by simp
    then show ?thesis using accepts_last assms(3) by fastforce
  next
    case (final ws w)
    then have "evs = intermediates False ws" "ev = ValueEvent w False False"
      using assms(2) by simp_all
    then show ?thesis using final(4) assms(3) by simp
  qed
  then have "render fuel agent listener a s = Some (catchError listener False e s1)"
    using assms(1) by (simp add: render_def)
  then show ?thesis using r1 by (simp add: catchError_ok resetHard_facts)
qed

theorem listener_throw_caught_witness:
  "renderInner 1 echo picky False (newHost 0 ()\<lparr>args := Some 1\<rparr>) \<noteq> None \<and>
   events (snd (the (renderInner 1 echo picky False (newHost 0 ()\<lparr>args := Some 1\<rparr>)))) =
     events (newHost 0 () :: (nat, nat, unit) host) @ [] @ [ValueEvent 1 False False] \<and>
   picky (events (newHost 0 () :: (nat, nat, unit) host) @ []) (ValueEvent 1 False False) = Some (Thrown 5) \<and>
   fst (the (render 1 echo picky 1 (newHost 0 ()))) = None \<and>
   events (snd (the (render 1 echo picky 1 (newHost 0 ())))) =
     [ValueEvent 1 False False, ErrorEvent (Thrown 5) False] \<and>
   memoryCells (snd (the (render 1 echo picky 1 (newHost 0 ())))) = [] \<and>
   fst (the (render 1 leakyEcho picky 1 (snd (the (render 1 leakyEcho picky 0 (newHost 0 ())))))) = None \<and>
   events (snd (the (render 1 leakyEcho picky 1 (snd (the (render 1 leakyEcho picky 0 (newHost 0 ()))))))) =
     [ValueEvent 0 False False, ValueEvent 1 False False, ErrorEvent (Thrown 5) False]"
proof -
  let ?s = "newHost 0 () :: (nat, nat, unit) host"
  have ne: "renderInner 1 echo picky False (?s\<lparr>args := Some 1\<rparr>) \<noteq> None"
    by (simp add: run echo_def picky_def)
  then obtain r1 s1 where i: "renderInner 1 echo picky False (?s\<lparr>args := Some 1\<rparr>) = Some (r1, s1)"
    by auto
  have ev: "events (snd (the (renderInner 1 echo picky False (?s\<lparr>args := Some 1\<rparr>)))) =
     events ?s @ [] @ [ValueEvent 1 False False]"
    by (simp add: run echo_def picky_def)
  have th: "picky (events ?s @ []) (ValueEvent 1 False False) = Some (Thrown 5)"
    by (simp add: picky_def)
  have ev1: "events s1 = events ?s @ [] @ [ValueEvent 1 False False]" using ev i by simp
  have "render 1 echo picky 1 ?s =
           Some (picky (events s1) (ErrorEvent (Thrown 5) False),
                 (resetHard s1)\<lparr>events := events s1 @ [ErrorEvent (Thrown 5) False]\<rparr>)"
    using listener_throw_caught [OF i ev1 th] by simp
  then have a: "fst (the (render 1 echo picky 1 ?s)) = None"
    "events (snd (the (render 1 echo picky 1 ?s))) =
       [ValueEvent 1 False False, ErrorEvent (Thrown 5) False]"
    "memoryCells (snd (the (render 1 echo picky 1 ?s))) = []"
    using ev1 by (simp_all add: picky_def newHost_def resetHard_facts)
  have b: "fst (the (render 1 leakyEcho picky 1 (snd (the (render 1 leakyEcho picky 0 ?s))))) = None"
    "events (snd (the (render 1 leakyEcho picky 1 (snd (the (render 1 leakyEcho picky 0 ?s)))))) =
     [ValueEvent 0 False False, ValueEvent 1 False False, ErrorEvent (Thrown 5) False]"
    by (simp_all add: run leakyEcho_def throwingCleanup_def picky_def)
  show ?thesis using ne ev th a b by simp
qed

text \<open>
  C9 as stated fails: the error event is itself an event emitted during the \<open>render\<close>
  call, and the call that hands it to the listener sits in the \<^verbatim>\<open>catch\<close> block,
  unprotected (lines 150-153). A listener that throws on the final value event
  and again on the error event makes \<open>render\<close> throw.
\<close>

theorem listener_rethrow_counterexample:
  "pickyTwice [] (ValueEvent 1 False False) = Some (Thrown 5) \<and>
   pickyTwice [ValueEvent 1 False False] (ErrorEvent (Thrown 5) False) = Some (Thrown 6) \<and>
   events (snd (the (render 1 echo pickyTwice 1 (newHost 0 ())))) =
     [ValueEvent 1 False False, ErrorEvent (Thrown 5) False] \<and>
   fst (the (render 1 echo pickyTwice 1 (newHost 0 ()))) = Some (Thrown 6)"
  by (simp add: run echo_def pickyTwice_def)

text \<open>
  C10. When the agent throws in a later pass of a \<open>render\<close> call, the listener has been
  handed the values of the earlier passes as intermediate value events; the error
  event carrying the thrown value follows them, and no value event with
  \<open>intermediate = False\<close> is emitted in that call.
\<close>

theorem later_throw_keeps_intermediates:
  assumes "renderInner fuel agent listener False (s\<lparr>args := Some a\<rparr>) = Some (r1, s1)"
    and "agentLog s1 = agentLog s @ map Inr vs @ [Inl e]"
  shows "r1 = Some e \<and> events s1 = events s @ intermediates False vs \<and>
         accepts listener (events s) (intermediates False vs) \<and>
         render fuel agent listener a s =
           Some (listener (events s @ intermediates False vs) (ErrorEvent e False),
                 (resetHard s1)\<lparr>events :=
                    events s @ intermediates False vs @ [ErrorEvent e False]\<rparr>) \<and>
         filter isValueEvent (intermediates False vs @ [ErrorEvent e False]) =
           map (\<lambda>v. ValueEvent v False True) vs"
proof -
  have st: "stops listener False (s\<lparr>args := Some a\<rparr>) [] r1 s1"
    using assms(1) by (rule renderInner_stops)
  have 1: "r1 = Some e \<and> events s1 = events s @ intermediates False vs \<and>
      accepts listener (events s) (intermediates False vs)"
    using st
  proof (cases rule: stops_cases)
    case (listener ws)
    then show ?thesis using assms(2) log_returns [of ws vs e] by simp
  next
    case (agent ws e')
    then show ?thesis using assms(2) log_agent [of ws e' vs e] by simp
  next
    case (effects ws w e')
    then show ?thesis using assms(2) log_returns [of "ws @ [w]" vs e] by simp
  next
    case (final ws w)
    then show ?thesis using assms(2) log_returns [of "ws @ [w]" vs e] by simp
  qed
  have c: "render fuel agent listener a s = Some (catchError listener False e s1)"
    using assms(1) 1 by (simp add: render_def)
  have 2: "filter isValueEvent (intermediates False vs @ [ErrorEvent e False]) =
      map (\<lambda>v. ValueEvent v False True) vs"
    by (induction vs) (simp_all add: intermediates_def)
  show ?thesis using 1 2 c by (simp add: catchError_ok)
qed

theorem later_throw_keeps_intermediates_witness:
  "renderInner 2 lateThrower quiet False (newHost 0 ()\<lparr>args := Some ()\<rparr>) \<noteq> None \<and>
   agentLog (snd (the (renderInner 2 lateThrower quiet False (newHost 0 ()\<lparr>args := Some ()\<rparr>)))) =
     agentLog (newHost 0 () :: (unit, nat, unit) host) @ map Inr [0] @ [Inl (Thrown 7)] \<and>
   fst (the (render 2 lateThrower quiet () (newHost 0 ()))) = None \<and>
   events (snd (the (render 2 lateThrower quiet () (newHost 0 ())))) =
     [ValueEvent 0 False True, ErrorEvent (Thrown 7) False] \<and>
   agentLog (snd (the (render 2 leakyLate quiet 1 (snd (the (render 2 leakyLate quiet 0 (newHost 0 ()))))))) =
     [Inr 0, Inr 0, Inl (Thrown 7)] \<and>
   fst (the (render 2 leakyLate quiet 1 (snd (the (render 2 leakyLate quiet 0 (newHost 0 ())))))) = None \<and>
   events (snd (the (render 2 leakyLate quiet 1 (snd (the (render 2 leakyLate quiet 0 (newHost 0 ()))))))) =
     [ValueEvent 0 False False, ValueEvent 0 False True, ErrorEvent (Thrown 7) False]"
proof -
  let ?s = "newHost 0 () :: (unit, nat, unit) host"
  have ne: "renderInner 2 lateThrower quiet False (?s\<lparr>args := Some ()\<rparr>) \<noteq> None"
    by (simp add: run lateThrower_def quiet_def)
  then obtain r1 s1 where i: "renderInner 2 lateThrower quiet False (?s\<lparr>args := Some ()\<rparr>) = Some (r1, s1)"
    by auto
  have lg: "agentLog (snd (the (renderInner 2 lateThrower quiet False (?s\<lparr>args := Some ()\<rparr>)))) =
     agentLog ?s @ map Inr [0] @ [Inl (Thrown 7)]"
    by (simp add: run lateThrower_def quiet_def)
  have "render 2 lateThrower quiet () ?s =
           Some (quiet (events ?s @ intermediates False [0]) (ErrorEvent (Thrown 7) False),
                 (resetHard s1)\<lparr>events :=
                    events ?s @ intermediates False [0] @ [ErrorEvent (Thrown 7) False]\<rparr>)"
    using later_throw_keeps_intermediates [OF i, where vs = "[0]" and e = "Thrown 7"] lg i by simp
  then have a: "fst (the (render 2 lateThrower quiet () ?s)) = None"
    "events (snd (the (render 2 lateThrower quiet () ?s))) =
       [ValueEvent 0 False True, ErrorEvent (Thrown 7) False]"
    by (simp_all add: quiet_def newHost_def)
  have b: "agentLog (snd (the (render 2 leakyLate quiet 1 (snd (the (render 2 leakyLate quiet 0 (newHost 0 ()))))))) =
     [Inr 0, Inr 0, Inl (Thrown 7)]"
    "fst (the (render 2 leakyLate quiet 1 (snd (the (render 2 leakyLate quiet 0 (newHost 0 ())))))) = None"
    "events (snd (the (render 2 leakyLate quiet 1 (snd (the (render 2 leakyLate quiet 0 (newHost 0 ()))))))) =
     [ValueEvent 0 False False, ValueEvent 0 False True, ErrorEvent (Thrown 7) False]"
    by (simp_all add: run leakyLate_def throwingCleanup_def quiet_def)
  show ?thesis using ne lg a b by simp
qed

end
